theory Spec2Isabelle
  imports
    Complex_Main
    "HOL-Library.Char_ord"
    "HOL-Library.List_Lexorder"
    "HOL-Library.Sublist"
begin

section \<open>Dates: the part of the date library the analytics code uses\<close>

text \<open>
  The analytics functions of \<^verbatim>\<open>dateUtils\<close> read the clock (\<^verbatim>\<open>new Date()\<close>) and
  work on date objects in the local time zone: \<^verbatim>\<open>format(d, 'yyyy-MM-dd')\<close>,
  \<^verbatim>\<open>subDays\<close>, \<^verbatim>\<open>parseISO\<close> of a day string, \<^verbatim>\<open>differenceInDays\<close> of two parsed days,
  and the week and month windows. A date object is modelled by its local fields: its
  calendar day (\<open>Date\<close>: proleptic Gregorian, astronomical year numbering, months counted
  from 1 as they are printed) and its time of day (\<open>JSDate\<close>, below). The clock and the
  time zone are explicit arguments (\<open>today\<close> or \<open>now\<close>, and \<open>z\<close>) of every function that
  reads them.
\<close>

datatype Date = YMD (getFullYear: int) (getMonth: nat) (getDate: nat)

definition isLeapYear :: "int \<Rightarrow> bool" where
  "isLeapYear y = ((y mod 4 = 0 \<and> y mod 100 \<noteq> 0) \<or> y mod 400 = 0)"

definition getDaysInMonth :: "int \<Rightarrow> nat \<Rightarrow> nat" where
  "getDaysInMonth y m =
     (if m = 2 then (if isLeapYear y then 29 else 28)
      else if m = 4 \<or> m = 6 \<or> m = 9 \<or> m = 11 then 30 else 31)"

text \<open>The days the clock and the parser can produce: a real day of a real month.\<close>

definition valid_date :: "Date \<Rightarrow> bool" where
  "valid_date t =
     (1 \<le> getMonth t \<and> getMonth t \<le> 12 \<and> 1 \<le> getDate t
      \<and> getDate t \<le> getDaysInMonth (getFullYear t) (getMonth t))"

text \<open>
  Setting the day of the month to \<open>getDate d + k\<close> names the calendar day \<open>k\<close> days after
  \<open>d\<close> (before it, for a negative \<open>k\<close>): \<open>shift_days\<close>, by steps to the next or the
  previous calendar day.
\<close>

fun prev_day :: "Date \<Rightarrow> Date" where
  "prev_day (YMD y m d) =
     (if 1 < d then YMD y m (d - 1)
      else if 1 < m then YMD y (m - 1) (getDaysInMonth y (m - 1))
      else YMD (y - 1) 12 31)"

fun next_day :: "Date \<Rightarrow> Date" where
  "next_day (YMD y m d) =
     (if d < getDaysInMonth y m then YMD y m (d + 1)
      else if m < 12 then YMD y (m + 1) 1
      else YMD (y + 1) 1 1)"

primrec days_back :: "Date \<Rightarrow> nat \<Rightarrow> Date" where
  "days_back t 0 = t"
| "days_back t (Suc n) = days_back (prev_day t) n"

primrec days_forward :: "Date \<Rightarrow> nat \<Rightarrow> Date" where
  "days_forward t 0 = t"
| "days_forward t (Suc n) = days_forward (next_day t) n"

definition shift_days :: "Date \<Rightarrow> int \<Rightarrow> Date" where
  "shift_days t k = (if k < 0 then days_back t (nat (- k)) else days_forward t (nat k))"

text \<open>
  The number of a day, counted from 0001-01-01 as day 1. \<^verbatim>\<open>differenceInDays\<close> of two
  dates at local midnight is the difference of their day numbers, and the day of the week
  (\<^verbatim>\<open>getDay\<close>, 0 for Sunday) is the day number modulo 7.
\<close>

definition days_before_year :: "int \<Rightarrow> int" where
  "days_before_year y = 365 * (y - 1) + (y - 1) div 4 - (y - 1) div 100 + (y - 1) div 400"

definition days_before_month :: "int \<Rightarrow> nat \<Rightarrow> int" where
  "days_before_month y m = int (sum_list (map (getDaysInMonth y) [1..<m]))"

definition day_number :: "Date \<Rightarrow> int" where
  "day_number t =
     days_before_year (getFullYear t) + days_before_month (getFullYear t) (getMonth t)
       + int (getDate t)"

definition differenceInDays :: "Date \<Rightarrow> Date \<Rightarrow> int" where
  "differenceInDays dateLeft dateRight = day_number dateLeft - day_number dateRight"

definition getDay :: "Date \<Rightarrow> nat" where
  "getDay t = nat (day_number t mod 7)"

subsection \<open>Date objects: a day, a time of day, and the time zone\<close>

text \<open>
  A date object shows a calendar day and a time of day, here in milliseconds after local
  midnight. The time zone enters in one way: where the clocks are set forward, the local
  times that are jumped over do not exist. For a zone \<open>z\<close>, \<open>z d t\<close> is 0 when the local
  time \<open>t\<close> of the day \<open>d\<close> exists, and otherwise the number of milliseconds by which the
  clocks are set forward over it. A setter of a date object (\<^verbatim>\<open>setDate\<close>,
  \<^verbatim>\<open>setHours\<close>, \<^verbatim>\<open>setFullYear\<close>) computes the new local fields and turns them into an
  instant; fields that name a local time that does not exist are read with the offset
  in force before the change, so the object then shows the local time that many
  milliseconds later, which can lie on a later day (\<open>make_local\<close>). (A local time that
  occurs twice, where the clocks are set back, shows the fields it was given.)
\<close>

type_synonym Zone = "Date \<Rightarrow> int \<Rightarrow> int"

datatype JSDate = JSDate (day_of: Date) (time_of: int)

definition ms_per_day :: int where
  "ms_per_day = 86400000"

definition make_local :: "Zone \<Rightarrow> Date \<Rightarrow> int \<Rightarrow> JSDate" where
  "make_local z d t =
     (if z d t \<le> 0 then JSDate d t
      else (let shown = t + z d t
            in JSDate (days_forward d (nat (shown div ms_per_day))) (shown mod ms_per_day)))"

text \<open>
  \<^verbatim>\<open>addDays(date, amount)\<close> returns the date as it is when \<open>amount\<close> is 0, and otherwise
  sets the day of the month to \<open>getDate + amount\<close> (\<^verbatim>\<open>date.setDate\<close>), which keeps the
  time of day. \<^verbatim>\<open>subDays(date, amount)\<close> is \<^verbatim>\<open>addDays(date, -amount)\<close>.
  \<^verbatim>\<open>setHours(h, m, s, ms)\<close> keeps the day and sets the time of day.
\<close>

definition setDate_plus :: "Zone \<Rightarrow> JSDate \<Rightarrow> int \<Rightarrow> JSDate" where
  "setDate_plus z date amount = make_local z (shift_days (day_of date) amount) (time_of date)"

definition addDays :: "Zone \<Rightarrow> JSDate \<Rightarrow> int \<Rightarrow> JSDate" where
  "addDays z date amount = (if amount = 0 then date else setDate_plus z date amount)"

definition subDays :: "Zone \<Rightarrow> JSDate \<Rightarrow> int \<Rightarrow> JSDate" where
  "subDays z date amount = addDays z date (- amount)"

definition setHours :: "Zone \<Rightarrow> JSDate \<Rightarrow> int \<Rightarrow> JSDate" where
  "setHours z date t = make_local z (day_of date) t"

subsection \<open>Printing and parsing day strings\<close>

text \<open>
  \<^verbatim>\<open>format(d, 'yyyy-MM-dd')\<close> prints the calendar day of a date object: the year of
  the era (\<open>y\<close> for a year of the common era, \<open>1 - y\<close> before it) padded with zeros to
  four digits, the month and the day padded to two. \<open>toString\<close> is the decimal form of a number that is not negative (it is applied
  to an absolute value). Strings are lists of characters; the characters of a day string
  are ASCII.
\<close>

definition digit_char :: "int \<Rightarrow> char" where
  "digit_char n = ''0123456789'' ! nat n"

function toString :: "int \<Rightarrow> string" where
  "toString n = (if n < 10 then [digit_char n] else toString (n div 10) @ [digit_char (n mod 10)])"
  by pat_completeness auto
termination
  by (relation "measure nat") auto

declare toString.simps [simp del]

definition padStart :: "string \<Rightarrow> nat \<Rightarrow> char \<Rightarrow> string" where
  "padStart s targetLength c = replicate (targetLength - length s) c @ s"

definition addLeadingZeros :: "int \<Rightarrow> nat \<Rightarrow> string" where
  "addLeadingZeros number targetLength =
     (let sign = (if number < 0 then ''-'' else []);
          output = padStart (toString \<bar>number\<bar>) targetLength (CHR ''0'')
      in sign @ output)"

definition formatDate :: "Date \<Rightarrow> string" where
  "formatDate t =
     (let signedYear = getFullYear t;
          year = (if 0 < signedYear then signedYear else 1 - signedYear)
      in addLeadingZeros year 4 @ ''-'' @ addLeadingZeros (int (getMonth t)) 2 @ ''-''
           @ addLeadingZeros (int (getDate t)) 2)"

text \<open>
  \<^verbatim>\<open>parseISO\<close> on the one format the session records use, \<^verbatim>\<open>YYYY-MM-DD\<close>: four digits,
  a hyphen, two digits, a hyphen, two digits, naming a real day. Every other string is
  an invalid date here (\<open>None\<close>); the library accepts further ISO 8601 forms, which the
  session records never hold.
\<close>

definition is_digit :: "char \<Rightarrow> bool" where
  "is_digit c = (CHR ''0'' \<le> c \<and> c \<le> CHR ''9'')"

definition digit_val :: "char \<Rightarrow> int" where
  "digit_val c = of_char c - 48"

definition parseInt :: "string \<Rightarrow> int" where
  "parseInt s = foldl (\<lambda>a c. 10 * a + digit_val c) 0 s"

definition parseISO :: "string \<Rightarrow> Date option" where
  "parseISO s =
     (if length s = 10 \<and> s ! 4 = CHR ''-'' \<and> s ! 7 = CHR ''-''
         \<and> list_all is_digit (take 4 s) \<and> list_all is_digit (take 2 (drop 5 s))
         \<and> list_all is_digit (drop 8 s)
      then (let t = YMD (parseInt (take 4 s)) (nat (parseInt (take 2 (drop 5 s))))
                      (nat (parseInt (drop 8 s)))
            in if valid_date t then Some t else None)
      else None)"

text \<open>
  A parsed date can be the invalid date; \<^verbatim>\<open>differenceInDays\<close> is then \<^verbatim>\<open>NaN\<close>
  (\<open>None\<close>), and \<^verbatim>\<open>isWithinInterval\<close> is false. The windows passed to
  \<^verbatim>\<open>isWithinInterval\<close> are the week and the month of \<open>now\<close>; its check that the start
  of a window does not lie after the end is left out (it can fire only in a zone that
  skips more than the window).
\<close>

definition differenceInDays_parsed :: "Date option \<Rightarrow> Date option \<Rightarrow> int option" where
  "differenceInDays_parsed dateLeft dateRight =
     (case (dateLeft, dateRight) of
        (Some l, Some r) \<Rightarrow> Some (differenceInDays l r)
      | _ \<Rightarrow> None)"

text \<open>
  The week and the month of a date. Each is made with the setters: the day is set first
  (keeping the time of day), then the time of day is set to the first or the last
  millisecond. \<^verbatim>\<open>isWithinInterval\<close> is given a parsed day and compares it with the two
  ends by calendar day.
\<close>

definition isWithinInterval :: "Date option \<Rightarrow> JSDate \<Rightarrow> JSDate \<Rightarrow> bool" where
  "isWithinInterval date start end_date =
     (case date of
        None \<Rightarrow> False
      | Some d \<Rightarrow> day_number (day_of start) \<le> day_number d
                  \<and> day_number d \<le> day_number (day_of end_date))"

definition startOfWeek :: "Zone \<Rightarrow> JSDate \<Rightarrow> nat \<Rightarrow> JSDate" where
  "startOfWeek z date weekStartsOn =
     (let day = getDay (day_of date);
          diff = (if day < weekStartsOn then 7 else 0) + int day - int weekStartsOn
      in setHours z (setDate_plus z date (- diff)) 0)"

definition endOfWeek :: "Zone \<Rightarrow> JSDate \<Rightarrow> nat \<Rightarrow> JSDate" where
  "endOfWeek z date weekStartsOn =
     (let day = getDay (day_of date);
          diff = (if day < weekStartsOn then - 7 else 0) + 6 - (int day - int weekStartsOn)
      in setHours z (setDate_plus z date diff) (ms_per_day - 1))"

definition startOfMonth :: "Zone \<Rightarrow> JSDate \<Rightarrow> JSDate" where
  "startOfMonth z date =
     setHours z
       (make_local z (YMD (getFullYear (day_of date)) (getMonth (day_of date)) 1) (time_of date)) 0"

definition endOfMonth :: "Zone \<Rightarrow> JSDate \<Rightarrow> JSDate" where
  "endOfMonth z date =
     setHours z
       (make_local z
          (YMD (getFullYear (day_of date)) (getMonth (day_of date))
             (getDaysInMonth (getFullYear (day_of date)) (getMonth (day_of date))))
          (time_of date))
       (ms_per_day - 1)"

section \<open>The data model (types/index.ts)\<close>

text \<open>
  Fields keep their names, but for \<open>id\<close>, \<open>date\<close>, \<open>notes\<close> and \<open>type\<close>, which
  carry the initial of their record (\<open>id_s\<close>, \<open>date_s\<close>, \<open>notes_s\<close> of a session,
  \<open>id_b\<close>, \<open>type_b\<close> of a badge), and for the fields of a heatmap entry (\<open>date_h\<close>,
  \<open>count_h\<close>, \<open>level_h\<close>). Numbers that count things are naturals, minutes
  and timestamps are integers. The record of the statistics, \<open>UserStats\<close>, stands with
  \<open>calculateStats\<close> below, after the loops whose counters share its field names.
\<close>

datatype TimeSlot = morning | afternoon | evening

record ReadingSession =
  id_s :: string
  date_s :: string
  timeSlot :: TimeSlot
  startTime :: string
  endTime :: string
  duration :: int
  content :: string
  notes_s :: "string option"
  createdAt :: int

datatype BadgeType = streak | time | content_type

record BadgeDefinition =
  id_b :: string
  name :: string
  description :: string
  icon :: string
  type_b :: BadgeType
  requirement :: int

record Badge = BadgeDefinition +
  unlocked :: bool
  unlockedAt :: "int option"

record HeatmapData =
  date_h :: string
  count_h :: nat
  level_h :: nat

section \<open>Heatmap (dateUtils.generateHeatmapData)\<close>

text \<open>
  The \<^verbatim>\<open>reduce\<close> builds a dictionary from day strings to counts; a missing or zero
  entry is set to 0 before it is incremented. (The dictionary is a plain object; the
  keys such an object inherits, like \<open>constructor\<close>, are no day strings and are never
  looked up.) The loop runs \<open>i\<close> from 364 down to 0 and
  pushes one entry per day; \<open>heatmap_loop\<close> takes the number of iterations left, which is
  \<open>i + 1\<close>.
\<close>

definition sessionsByDate :: "ReadingSession list \<Rightarrow> (string \<rightharpoonup> nat)" where
  "sessionsByDate sessions =
     foldl (\<lambda>acc session.
              let date = date_s session;
                  acc1 = (if acc date = None \<or> acc date = Some 0 then acc(date \<mapsto> 0) else acc)
              in acc1(date \<mapsto> (case acc1 date of None \<Rightarrow> 0 | Some c \<Rightarrow> c) + 1))
           Map.empty sessions"

definition heatmap_level :: "nat \<Rightarrow> nat" where
  "heatmap_level count =
     (if count \<ge> 3 then 5
      else if count \<ge> 2 then 4
      else if count \<ge> 1 then 3
      else if count = 0 then 0
      else 0)"

definition heatmap_entry :: "Zone \<Rightarrow> JSDate \<Rightarrow> (string \<rightharpoonup> nat) \<Rightarrow> nat \<Rightarrow> HeatmapData" where
  "heatmap_entry z today byDate i =
     (let date = subDays z today (int i);
          dateString = formatDate (day_of date);
          count = (case byDate dateString of None \<Rightarrow> 0 | Some c \<Rightarrow> c)
      in \<lparr>date_h = dateString, count_h = count, level_h = heatmap_level count\<rparr>)"

primrec heatmap_loop ::
  "Zone \<Rightarrow> JSDate \<Rightarrow> (string \<rightharpoonup> nat) \<Rightarrow> nat \<Rightarrow> HeatmapData list \<Rightarrow> HeatmapData list" where
  "heatmap_loop z today byDate 0 heatmapData = heatmapData"
| "heatmap_loop z today byDate (Suc i) heatmapData =
     heatmap_loop z today byDate i (heatmapData @ [heatmap_entry z today byDate i])"

definition generateHeatmapData :: "Zone \<Rightarrow> JSDate \<Rightarrow> ReadingSession list \<Rightarrow> HeatmapData list" where
  "generateHeatmapData z today sessions = heatmap_loop z today (sessionsByDate sessions) 365 []"

section \<open>Streaks (dateUtils.calculateStreaks)\<close>

text \<open>
  \<^verbatim>\<open>[...new Set(xs)]\<close> keeps the first occurrence of each element, in order;
  \<^verbatim>\<open>.sort()\<close> without a comparator orders strings by their code units, which for the
  ASCII characters of day strings is the lexicographic order of the character lists.
\<close>

definition new_Set :: "'a list \<Rightarrow> 'a list" where
  "new_Set xs = foldl (\<lambda>acc x. if x \<in> set acc then acc else acc @ [x]) [] xs"

definition uniqueDates_of :: "ReadingSession list \<Rightarrow> string list" where
  "uniqueDates_of sessions = sort (new_Set (map date_s sessions))"

text \<open>
  The \<^verbatim>\<open>while (true)\<close> loop of the current streak steps back with \<^verbatim>\<open>subDays\<close> for as
  long as the day's string is among the session dates. Nothing in the loop bounds the
  number of its steps: where it runs forever the function does not return, which is the
  value \<open>None\<close>.
\<close>

partial_function (option) current_streak_loop ::
  "Zone \<Rightarrow> string list \<Rightarrow> JSDate \<Rightarrow> nat \<Rightarrow> nat option" where
  "current_streak_loop z uniqueDates checkDate currentStreak =
     (if formatDate (day_of checkDate) \<in> set uniqueDates
      then current_streak_loop z uniqueDates (subDays z checkDate 1) (currentStreak + 1)
      else Some currentStreak)"

declare current_streak_loop.simps [code]

function longest_streak_loop :: "string list \<Rightarrow> nat \<Rightarrow> nat \<Rightarrow> nat \<Rightarrow> nat \<times> nat" where
  "longest_streak_loop uniqueDates i longestStreak tempStreak =
     (if i < length uniqueDates then
        (if i = 0 then longest_streak_loop uniqueDates (i + 1) longestStreak 1
         else
           (let prevDate = parseISO (uniqueDates ! (i - 1));
                currentDate = parseISO (uniqueDates ! i);
                daysDiff = differenceInDays_parsed currentDate prevDate
            in if daysDiff = Some 1
               then longest_streak_loop uniqueDates (i + 1) longestStreak (tempStreak + 1)
               else longest_streak_loop uniqueDates (i + 1) (max longestStreak tempStreak) 1))
      else (longestStreak, tempStreak))"
  by pat_completeness auto
termination
  by (relation "measure (\<lambda>(u, i, l, t). length u - i)") auto

declare longest_streak_loop.simps [simp del]

text \<open>
  The result is the pair \<open>(currentStreak, longestStreak)\<close>, or \<open>None\<close> when the walk of the
  current streak does not end. The three readings of the clock in the source are one
  \<open>now\<close> here.
\<close>

definition calculateStreaks :: "Zone \<Rightarrow> JSDate \<Rightarrow> ReadingSession list \<Rightarrow> (nat \<times> nat) option" where
  "calculateStreaks z now sessions =
     (if length sessions = 0 then Some (0, 0)
      else
        (let uniqueDates = uniqueDates_of sessions;
             today = formatDate (day_of now);
             yesterday = formatDate (day_of (subDays z now 1));
             walk =
               (if today \<in> set uniqueDates \<or> yesterday \<in> set uniqueDates
                then current_streak_loop z uniqueDates now 0
                else Some 0)
         in (case walk of
               None \<Rightarrow> None
             | Some currentStreak \<Rightarrow>
                 (let loop = longest_streak_loop uniqueDates 0 0 0;
                      longestStreak = max (fst loop) (snd loop)
                  in Some (currentStreak, longestStreak)))))"

section \<open>Statistics (dateUtils.calculateStats)\<close>

record UserStats =
  totalSessions :: int
  totalMinutes :: int
  currentStreak :: int
  longestStreak :: int
  averageSessionDuration :: int
  sessionsThisWeek :: int
  sessionsThisMonth :: int
  minutesThisWeek :: int
  minutesThisMonth :: int

text \<open>
  \<^verbatim>\<open>Math.round\<close> rounds to the nearest integer, a half upwards. The quotient of the
  minutes by the number of sessions is an exact rational here. \<open>calculateStreaks\<close>
  reads the clock again in the source; it is given the same \<open>now\<close>. Where
  \<open>calculateStreaks\<close> does not return, neither does \<open>calculateStats\<close>.
\<close>

definition Math_round :: "rat \<Rightarrow> int" where
  "Math_round x = \<lfloor>x + 1 / 2\<rfloor>"

definition calculateStats :: "Zone \<Rightarrow> JSDate \<Rightarrow> ReadingSession list \<Rightarrow> UserStats option" where
  "calculateStats z now sessions =
     (let weekStart = startOfWeek z now 1;
          weekEnd = endOfWeek z now 1;
          monthStart = startOfMonth z now;
          monthEnd = endOfMonth z now;
          totalSessions = int (length sessions);
          totalMinutes = foldl (\<lambda>sum session. sum + duration session) 0 sessions;
          averageSessionDuration =
            (if totalSessions > 0 then Math_round (of_int totalMinutes / of_int totalSessions)
             else 0);
          sessionsThisWeek =
            int (length (filter (\<lambda>session. isWithinInterval (parseISO (date_s session))
                                   weekStart weekEnd) sessions));
          sessionsThisMonth =
            int (length (filter (\<lambda>session. isWithinInterval (parseISO (date_s session))
                                   monthStart monthEnd) sessions));
          minutesThisWeek =
            foldl (\<lambda>sum session. sum + duration session) 0
              (filter (\<lambda>session. isWithinInterval (parseISO (date_s session))
                         weekStart weekEnd) sessions);
          minutesThisMonth =
            foldl (\<lambda>sum session. sum + duration session) 0
              (filter (\<lambda>session. isWithinInterval (parseISO (date_s session))
                         monthStart monthEnd) sessions)
      in (case calculateStreaks z now sessions of
            None \<Rightarrow> None
          | Some streaks \<Rightarrow>
              Some \<lparr>totalSessions = totalSessions,
                    totalMinutes = totalMinutes,
                    currentStreak = int (fst streaks),
                    longestStreak = int (snd streaks),
                    averageSessionDuration = averageSessionDuration,
                    sessionsThisWeek = sessionsThisWeek,
                    sessionsThisMonth = sessionsThisMonth,
                    minutesThisWeek = minutesThisWeek,
                    minutesThisMonth = minutesThisMonth\<rparr>))"

section \<open>Badges (the \<open>badges\<close> memo of BadgeSystem.tsx)\<close>

definition BADGE_DEFINITIONS :: "BadgeDefinition list" where
  "BADGE_DEFINITIONS =
     [\<lparr>id_b = ''streak-3'', name = ''Getting Started'', description = ''3-day reading streak'',
        icon = ''flame'', type_b = streak, requirement = 3\<rparr>,
      \<lparr>id_b = ''streak-7'', name = ''Week Warrior'', description = ''7-day reading streak'',
        icon = ''flame'', type_b = streak, requirement = 7\<rparr>,
      \<lparr>id_b = ''streak-30'', name = ''Monthly Master'', description = ''30-day reading streak'',
        icon = ''flame'', type_b = streak, requirement = 30\<rparr>,
      \<lparr>id_b = ''streak-100'', name = ''Century Club'', description = ''100-day reading streak'',
        icon = ''trophy'', type_b = streak, requirement = 100\<rparr>,
      \<lparr>id_b = ''time-300'', name = ''Dedicated Reader'', description = ''5 hours in a week'',
        icon = ''clock'', type_b = time, requirement = 300\<rparr>,
      \<lparr>id_b = ''time-600'', name = ''Bookworm'', description = ''10 hours in a week'',
        icon = ''clock'', type_b = time, requirement = 600\<rparr>,
      \<lparr>id_b = ''time-900'', name = ''Reading Machine'', description = ''15 hours in a week'',
        icon = ''star'', type_b = time, requirement = 900\<rparr>,
      \<lparr>id_b = ''time-1200'', name = ''Literary Legend'', description = ''20 hours in a week'',
        icon = ''trophy'', type_b = time, requirement = 1200\<rparr>,
      \<lparr>id_b = ''sessions-10'', name = ''First Steps'', description = ''10 reading sessions'',
        icon = ''book-open'', type_b = content_type, requirement = 10\<rparr>,
      \<lparr>id_b = ''sessions-50'', name = ''Consistent Reader'', description = ''50 reading sessions'',
        icon = ''book-open'', type_b = content_type, requirement = 50\<rparr>,
      \<lparr>id_b = ''sessions-100'', name = ''Century Reader'', description = ''100 reading sessions'',
        icon = ''award'', type_b = content_type, requirement = 100\<rparr>,
      \<lparr>id_b = ''sessions-250'', name = ''Reading Expert'', description = ''250 reading sessions'',
        icon = ''trophy'', type_b = content_type, requirement = 250\<rparr>]"

text \<open>
  \<^verbatim>\<open>{...badgeDef, unlocked: u, unlockedAt: t}\<close>: the definition's fields with the two
  state fields added.
\<close>

definition spread_badge :: "BadgeDefinition \<Rightarrow> bool \<Rightarrow> int option \<Rightarrow> Badge" where
  "spread_badge badgeDef u t =
     \<lparr>id_b = id_b badgeDef, name = name badgeDef, description = description badgeDef,
      icon = icon badgeDef, type_b = type_b badgeDef, requirement = requirement badgeDef,
      unlocked = u, unlockedAt = t\<rparr>"

text \<open>
  \<^verbatim>\<open>new Map(existingBadges.map(b => [b.id, b]))\<close>: the entries are put in order, a later
  badge replacing an earlier one of the same id.
\<close>

definition badgeMap_of :: "Badge list \<Rightarrow> (string \<rightharpoonup> Badge)" where
  "badgeMap_of existingBadges = foldl (\<lambda>m b. m(id_b b \<mapsto> b)) Map.empty existingBadges"

definition isUnlocked_now :: "UserStats \<Rightarrow> BadgeDefinition \<Rightarrow> bool" where
  "isUnlocked_now stats badgeDef =
     (case type_b badgeDef of
        streak \<Rightarrow> currentStreak stats \<ge> requirement badgeDef
      | time \<Rightarrow> minutesThisWeek stats \<ge> requirement badgeDef
      | content_type \<Rightarrow> totalSessions stats \<ge> requirement badgeDef)"

text \<open>
  The callback of \<^verbatim>\<open>BADGE_DEFINITIONS.map\<close>. It returns the badge and, when the badge
  is newly unlocked, the badge it hands to \<^verbatim>\<open>setNewBadges\<close>. \<open>now\<close> is the reading of
  \<^verbatim>\<open>Date.now()\<close>.
\<close>

definition evaluate_badge ::
  "UserStats \<Rightarrow> int \<Rightarrow> (string \<rightharpoonup> Badge) \<Rightarrow> BadgeDefinition \<Rightarrow> Badge \<times> Badge option" where
  "evaluate_badge stats now badgeMap badgeDef =
     (let existing = badgeMap (id_b badgeDef);
          isUnlocked = isUnlocked_now stats badgeDef
      in if isUnlocked \<and> (case existing of None \<Rightarrow> True | Some e \<Rightarrow> \<not> unlocked e)
         then (let newBadge = spread_badge badgeDef True (Some now)
               in (newBadge, Some newBadge))
         else (case existing of
                 Some e \<Rightarrow> (e, None)
               | None \<Rightarrow>
                   (spread_badge badgeDef isUnlocked (if isUnlocked then Some now else None),
                    None)))"

text \<open>
  The updater passed to \<^verbatim>\<open>setNewBadges\<close>: the new badge is appended unless a badge of
  its id is already waiting to be shown.
\<close>

definition setNewBadges_update :: "Badge list \<Rightarrow> Badge \<Rightarrow> Badge list" where
  "setNewBadges_update prev newBadge =
     (if find (\<lambda>b. id_b b = id_b newBadge) prev = None then prev @ [newBadge] else prev)"

text \<open>
  The memo: from the statistics, the clock, the stored badges
  (\<^verbatim>\<open>storageUtils.loadBadges()\<close>) and the \<open>newBadges\<close> state, the updated badges (which
  it saves and returns) and the \<open>newBadges\<close> state after the queued updates.
\<close>

definition badges_memo ::
  "UserStats \<Rightarrow> int \<Rightarrow> Badge list \<Rightarrow> Badge list \<Rightarrow> Badge list \<times> Badge list" where
  "badges_memo stats now existingBadges newBadges =
     (let badgeMap = badgeMap_of existingBadges;
          results = map (evaluate_badge stats now badgeMap) BADGE_DEFINITIONS;
          updatedBadges = map fst results
      in (updatedBadges, foldl setNewBadges_update newBadges (List.map_filter snd results)))"

section \<open>Storage (utils/storage.ts)\<close>

text \<open>
  \<^verbatim>\<open>localStorage\<close> holds strings, written by \<^verbatim>\<open>JSON.stringify\<close> and read by
  \<^verbatim>\<open>JSON.parse\<close>. A string is modelled by what \<^verbatim>\<open>JSON.parse\<close> makes of it: the JSON
  value it denotes, or \<open>Unparsable\<close> when \<^verbatim>\<open>JSON.parse\<close> throws. An object is the list of
  its properties, each key once. A write is taken to succeed (the quota is not modelled), and what is
  written is read back as the value that was written.
\<close>

datatype json =
  JNull | JBool bool | JNumber rat | JString string | JArray "json list"
  | JObject "(string \<times> json) list"

datatype json_text = Unparsable | Json json

datatype js_error = TypeError

record localStorage =
  SESSIONS :: "json_text option"
  BADGES :: "json_text option"
  LAST_SESSION_DATE :: "string option"

text \<open>
  Reading a property: of \<^verbatim>\<open>null\<close> it throws; of an object it is the property or
  \<^verbatim>\<open>undefined\<close> (\<open>None\<close>); of a number, a string, a boolean or an array the properties
  read here (\<open>id\<close>, \<open>sessions\<close>, \<open>badges\<close>) are \<^verbatim>\<open>undefined\<close>.
\<close>

fun get_prop :: "json \<Rightarrow> string \<Rightarrow> js_error + json option" where
  "get_prop JNull k = Inl TypeError"
| "get_prop (JObject ps) k = Inr (map_of ps k)"
| "get_prop v k = Inr None"

definition saveSessions :: "json \<Rightarrow> localStorage \<Rightarrow> localStorage" where
  "saveSessions sessions st = st\<lparr>SESSIONS := Some (Json sessions)\<rparr>"


definition saveBadges :: "json \<Rightarrow> localStorage \<Rightarrow> localStorage" where
  "saveBadges badges st = st\<lparr>BADGES := Some (Json badges)\<rparr>"

definition loadBadges :: "localStorage \<Rightarrow> json" where
  "loadBadges st =
     (case BADGES st of
        None \<Rightarrow> JArray []
      | Some Unparsable \<Rightarrow> JArray []
      | Some (Json v) \<Rightarrow> v)"



text \<open>
  \<open>importData\<close>: the argument is the input string, as \<^verbatim>\<open>JSON.parse\<close> reads it. An
  exception (the parse error, or the property read of \<^verbatim>\<open>null\<close>) is caught and gives
  \<open>False\<close>; an array is always truthy, so each guard is the array test.
\<close>

definition importData :: "json_text \<Rightarrow> localStorage \<Rightarrow> bool \<times> localStorage" where
  "importData jsonData st =
     (case jsonData of
        Unparsable \<Rightarrow> (False, st)
      | Json data \<Rightarrow>
          (case get_prop data ''sessions'' of
             Inl e \<Rightarrow> (False, st)
           | Inr sessions \<Rightarrow>
               (let st1 = (case sessions of
                             Some (JArray xs) \<Rightarrow> saveSessions (JArray xs) st
                           | _ \<Rightarrow> st)
                in (case get_prop data ''badges'' of
                      Inl e \<Rightarrow> (False, st1)
                    | Inr badges \<Rightarrow>
                        (let st2 = (case badges of
                                      Some (JArray ys) \<Rightarrow> saveBadges (JArray ys) st1
                                    | _ \<Rightarrow> st1)
                         in (True, st2))))))"

text \<open>A session record as the JSON value \<^verbatim>\<open>JSON.stringify\<close> writes for it.\<close>

definition timeSlot_json :: "TimeSlot \<Rightarrow> json" where
  "timeSlot_json ts =
     (case ts of
        morning \<Rightarrow> JString ''morning''
      | afternoon \<Rightarrow> JString ''afternoon''
      | evening \<Rightarrow> JString ''evening'')"

definition session_json :: "ReadingSession \<Rightarrow> json" where
  "session_json s =
     JObject
       ([(''id'', JString (id_s s)), (''date'', JString (date_s s)),
         (''timeSlot'', timeSlot_json (timeSlot s)),
         (''startTime'', JString (startTime s)), (''endTime'', JString (endTime s)),
         (''duration'', JNumber (of_int (duration s))), (''content'', JString (content s))]
        @ (case notes_s s of None \<Rightarrow> [] | Some n \<Rightarrow> [(''notes'', JString n)])
        @ [(''createdAt'', JNumber (of_int (createdAt s)))])"

section \<open>Example data\<close>

text \<open>
  A session with the given id, day string and minutes; the fields the analytics never
  read are fixed.
\<close>

definition session_on :: "string \<Rightarrow> string \<Rightarrow> int \<Rightarrow> ReadingSession" where
  "session_on i d m =
     \<lparr>id_s = i, date_s = d, timeSlot = morning, startTime = ''09:00'', endTime = ''10:00'',
      duration = m, content = ''book'', notes_s = None, createdAt = 0\<rparr>"

text \<open>
  Seven sessions: one on each day from 1 to 5 January 2024, and one on each of 9 and 10
  January.
\<close>

definition two_runs :: "ReadingSession list" where
  "two_runs =
     [session_on ''s1'' ''2024-01-10'' 30, session_on ''s2'' ''2024-01-09'' 30,
      session_on ''s3'' ''2024-01-01'' 30, session_on ''s4'' ''2024-01-02'' 30,
      session_on ''s5'' ''2024-01-03'' 30, session_on ''s6'' ''2024-01-04'' 30,
      session_on ''s7'' ''2024-01-05'' 30]"

text \<open>The statistics with every field zero.\<close>

definition zero_stats :: UserStats where
  "zero_stats =
     \<lparr>totalSessions = 0, totalMinutes = 0, currentStreak = 0, longestStreak = 0,
      averageSessionDuration = 0, sessionsThisWeek = 0, sessionsThisMonth = 0,
      minutesThisWeek = 0, minutesThisMonth = 0\<rparr>"

text \<open>
  A zone whose clocks are never set forward, and the time of day at noon.
\<close>

definition no_skips :: Zone where
  "no_skips d t = 0"

definition noon :: int where
  "noon = 43200000"



text \<open>
  A zone that skips a whole day, 30 December 2011 (the change of Pacific/Apia to the other
  side of the date line in the time zone database).
\<close>

definition whole_day_skipped :: Zone where
  "whole_day_skipped d t = (if d = YMD 2011 12 30 then ms_per_day else 0)"

section \<open>Notions used to state and prove the properties\<close>

text \<open>The length of a year, and the days of a common year before each month.\<close>

definition year_length :: "int \<Rightarrow> int" where
  "year_length y = (if isLeapYear y then 366 else 365)"

definition month_offset :: "nat \<Rightarrow> int" where
  "month_offset m = [0, 31, 59, 90, 120, 151, 181, 212, 243, 273, 304, 334] ! (m - 1)"

text \<open>
  The year as a day string shows it, and the order of calendar days by their fields. The
  days still ahead of a walk back from the day \<open>c\<close> over the strings \<open>u\<close>: \<open>c\<close> and the
  days before it whose string is in \<open>u\<close>.
\<close>

definition year_of_era :: "Date \<Rightarrow> int" where
  "year_of_era t = (if 0 < getFullYear t then getFullYear t else 1 - getFullYear t)"

definition date_before :: "Date \<Rightarrow> Date \<Rightarrow> bool" where
  "date_before a b =
     (getFullYear a < getFullYear b
      \<or> (getFullYear a = getFullYear b
          \<and> (getMonth a < getMonth b \<or> (getMonth a = getMonth b \<and> getDate a < getDate b))))"

definition pending :: "string list \<Rightarrow> Date \<Rightarrow> Date set" where
  "pending u c = {t. (t = c \<or> date_before t c) \<and> formatDate t \<in> set u}"

text \<open>
  A reading of the clock: a real day and a time of day within it. On each of the \<open>n - 1\<close>
  days before today the clock's time of day stays within the day (\<open>keeps_day\<close>): it
  exists there, or the time shown in its place lies before the next midnight. A zone with
  \<open>short_skips\<close> never sets its clocks forward by a whole day or more.
\<close>

definition clock_reading :: "JSDate \<Rightarrow> bool" where
  "clock_reading now = (valid_date (day_of now) \<and> 0 \<le> time_of now \<and> time_of now < ms_per_day)"


definition short_skips :: "Zone \<Rightarrow> bool" where
  "short_skips z = (\<forall>d t. z d t < ms_per_day)"


text \<open>
  Two day strings are consecutive when the second parses to the day after the day the
  first parses to. A run is a list of strings each consecutive to the one before it
  (\<open>successively consecutive_days\<close>); the runs of the session dates are the runs that
  stand as one block in the sorted list of distinct dates (\<open>sublist\<close>).
\<close>

definition consecutive_days :: "string \<Rightarrow> string \<Rightarrow> bool" where
  "consecutive_days a b = (differenceInDays_parsed (parseISO b) (parseISO a) = Some 1)"

text \<open>
  The loop of the longest streak, read as a scan of the list after its first element:
  \<open>p\<close> is the element before the rest \<open>xs\<close>, and the result is the final
  \<^verbatim>\<open>Math.max(longestStreak, tempStreak)\<close>.
\<close>

fun run_scan :: "string \<Rightarrow> string list \<Rightarrow> nat \<Rightarrow> nat \<Rightarrow> nat" where
  "run_scan p [] l t = max l t"
| "run_scan p (x # xs) l t =
     (if consecutive_days p x then run_scan x xs l (t + 1) else run_scan x xs (max l t) 1)"

text \<open>
  What the scan keeps true: its result \<open>v\<close> is at least \<open>l\<close>, at least the length of
  every run that starts the list (counted with the \<open>t - 1\<close> days already seen before
  \<open>p\<close>), at least the length of every run further on, and it is one of these numbers.
\<close>

definition scan_ok :: "string \<Rightarrow> string list \<Rightarrow> nat \<Rightarrow> nat \<Rightarrow> nat \<Rightarrow> bool" where
  "scan_ok p xs l t v =
     (l \<le> v
      \<and> (\<forall>r. prefix r (p # xs) \<and> r \<noteq> [] \<and> successively consecutive_days r
             \<longrightarrow> length r + t - 1 \<le> v)
      \<and> (\<forall>r. sublist r xs \<and> successively consecutive_days r \<longrightarrow> length r \<le> v)
      \<and> (v = l
          \<or> (\<exists>r. prefix r (p # xs) \<and> r \<noteq> [] \<and> successively consecutive_days r
                 \<and> v = length r + t - 1)
          \<or> (\<exists>r. sublist r xs \<and> successively consecutive_days r \<and> v = length r)))"

section \<open>Properties of day strings\<close>

subsection \<open>Day strings determine the day, up to the era\<close>

lemma digit_char_props:
  assumes "0 \<le> n" "n < 10"
  shows "is_digit (digit_char n)" and "digit_val (digit_char n) = n"
proof -
  from assms have "n \<in> {0, 1, 2, 3, 4, 5, 6, 7, 8, 9}"
    by (simp only: insert_iff empty_iff) arith
  then show "is_digit (digit_char n)" and "digit_val (digit_char n) = n"
    by (auto simp: digit_char_def is_digit_def digit_val_def less_eq_char_def)
qed

lemma toString_digits: "0 \<le> n \<Longrightarrow> c \<in> set (toString n) \<Longrightarrow> is_digit c"
proof (induction n arbitrary: c rule: toString.induct)
  case (1 n)
  show ?case
  proof (cases "n < 10")
    case True
    with "1.prems" show ?thesis by (simp add: toString.simps[of n] digit_char_props)
  next
    case False
    then have "0 \<le> n div 10" "0 \<le> n mod 10" "n mod 10 < 10" by simp_all
    with False "1.prems" "1.IH" show ?thesis
      by (auto simp: toString.simps[of n] digit_char_props)
  qed
qed

lemma parseInt_snoc: "parseInt (xs @ [c]) = 10 * parseInt xs + digit_val c"
  by (simp add: parseInt_def)

lemma parseInt_toString: "0 \<le> n \<Longrightarrow> parseInt (toString n) = n"
proof (induction n rule: toString.induct)
  case (1 n)
  show ?case
  proof (cases "n < 10")
    case True
    with "1.prems" show ?thesis
      by (simp add: toString.simps[of n] parseInt_def digit_char_props)
  next
    case False
    then have "0 \<le> n div 10" "0 \<le> n mod 10" "n mod 10 < 10" by simp_all
    with False "1.IH" show ?thesis
      by (simp add: toString.simps[of n] parseInt_snoc digit_char_props)
  qed
qed

lemma parseInt_zeros: "parseInt (replicate k (CHR ''0'') @ xs) = parseInt xs"
proof -
  have "foldl (\<lambda>a c. 10 * a + digit_val c) 0 (replicate k (CHR ''0'')) = 0"
    by (induction k) (simp_all add: digit_val_def)
  then show ?thesis by (simp add: parseInt_def)
qed

lemma addLeadingZeros_nonneg:
  "0 \<le> n \<Longrightarrow> addLeadingZeros n k = replicate (k - length (toString n)) (CHR ''0'') @ toString n"
  by (simp add: addLeadingZeros_def padStart_def)

lemma parseInt_addLeadingZeros: "0 \<le> n \<Longrightarrow> parseInt (addLeadingZeros n k) = n"
  by (simp add: addLeadingZeros_nonneg parseInt_zeros parseInt_toString)

lemma addLeadingZeros_digits: "0 \<le> n \<Longrightarrow> c \<in> set (addLeadingZeros n k) \<Longrightarrow> is_digit c"
  by (auto simp: addLeadingZeros_nonneg is_digit_def dest: toString_digits)

lemma hyphen_not_digit: "\<not> is_digit (CHR ''-'')"
  by (simp add: is_digit_def less_eq_char_def)

lemma hyphen_notin: "0 \<le> n \<Longrightarrow> CHR ''-'' \<notin> set (addLeadingZeros n k)"
  using addLeadingZeros_digits hyphen_not_digit by blast

lemma year_of_era_pos: "0 < year_of_era t"
  by (simp add: year_of_era_def)

lemma formatDate_alt:
  "formatDate t = addLeadingZeros (year_of_era t) 4 @ CHR ''-'' #
       (addLeadingZeros (int (getMonth t)) 2 @ CHR ''-'' # addLeadingZeros (int (getDate t)) 2)"
  by (simp add: formatDate_def year_of_era_def Let_def)

lemma split_at_first:
  "x \<notin> set xs \<Longrightarrow> x \<notin> set xs' \<Longrightarrow> xs @ x # ys = xs' @ x # ys' \<Longrightarrow> xs = xs' \<and> ys = ys'"
proof (induction xs arbitrary: xs')
  case Nil
  then show ?case by (cases xs') auto
next
  case (Cons a xs)
  then show ?case by (cases xs') auto
qed

lemma formatDate_eqD:
  assumes "formatDate a = formatDate b"
  shows "year_of_era a = year_of_era b \<and> getMonth a = getMonth b \<and> getDate a = getDate b"
proof -
  have ya: "0 \<le> year_of_era a" and yb: "0 \<le> year_of_era b"
    using year_of_era_pos[of a] year_of_era_pos[of b] by simp_all
  have m: "0 \<le> int (getMonth a)" "0 \<le> int (getMonth b)" by simp_all
  have d: "0 \<le> int (getDate a)" "0 \<le> int (getDate b)" by simp_all
  have inj: "x = y" if "0 \<le> x" "0 \<le> y" "addLeadingZeros x k = addLeadingZeros y k" for x y k
  proof -
    have "x = parseInt (addLeadingZeros x k)" using that(1) by (simp add: parseInt_addLeadingZeros)
    also have "\<dots> = parseInt (addLeadingZeros y k)" by (simp only: that(3))
    also have "\<dots> = y" using that(2) by (simp add: parseInt_addLeadingZeros)
    finally show ?thesis .
  qed
  from assms have e: "addLeadingZeros (year_of_era a) 4 = addLeadingZeros (year_of_era b) 4
      \<and> addLeadingZeros (int (getMonth a)) 2 @ CHR ''-'' # addLeadingZeros (int (getDate a)) 2
        = addLeadingZeros (int (getMonth b)) 2 @ CHR ''-'' # addLeadingZeros (int (getDate b)) 2"
    unfolding formatDate_alt by (rule split_at_first[OF hyphen_notin[OF ya] hyphen_notin[OF yb]])
  then have e2: "addLeadingZeros (int (getMonth a)) 2 = addLeadingZeros (int (getMonth b)) 2
      \<and> addLeadingZeros (int (getDate a)) 2 = addLeadingZeros (int (getDate b)) 2"
    using split_at_first[OF hyphen_notin[OF m(1)] hyphen_notin[OF m(2)]] by blast
  from e have "year_of_era a = year_of_era b" by (intro inj[OF ya yb]) (rule conjunct1)
  moreover from e2 have "int (getMonth a) = int (getMonth b)"
    by (intro inj[OF m]) (rule conjunct1)
  moreover from e2 have "int (getDate a) = int (getDate b)"
    by (intro inj[OF d]) (rule conjunct2)
  ultimately show ?thesis by simp
qed

lemma finite_formatDate_eq: "finite {t. formatDate t = s}"
proof (cases "\<exists>t0. formatDate t0 = s")
  case False
  then show ?thesis by simp
next
  case True
  then obtain t0 where t0: "formatDate t0 = s" ..
  have "{t. formatDate t = s} \<subseteq>
      {YMD (year_of_era t0) (getMonth t0) (getDate t0),
       YMD (1 - year_of_era t0) (getMonth t0) (getDate t0)}"
  proof
    fix t assume "t \<in> {t. formatDate t = s}"
    then have "formatDate t = formatDate t0" using t0 by simp
    from formatDate_eqD[OF this]
    show "t \<in> {YMD (year_of_era t0) (getMonth t0) (getDate t0),
       YMD (1 - year_of_era t0) (getMonth t0) (getDate t0)}"
      by (cases t) (auto simp: year_of_era_def split: if_splits)
  qed
  then show ?thesis by (rule finite_subset) simp
qed

lemma finite_formatDate_in: "finite {t. formatDate t \<in> set u}"
proof -
  have "{t. formatDate t \<in> set u} = (\<Union>s\<in>set u. {t. formatDate t = s})" by auto
  then show ?thesis by (simp add: finite_formatDate_eq)
qed

section \<open>Properties of the calendar\<close>

subsection \<open>Day numbers step by one\<close>

lemma div_step:
  fixes y k :: int
  assumes k: "0 < k"
  shows "y div k = (y - 1) div k + (if y mod k = 0 then 1 else 0)"
proof (cases "y mod k = 0")
  case True
  have "y = k * (y div k) + y mod k" by simp
  with True have "y - 1 = k * (y div k - 1) + (k - 1)" by (simp add: algebra_simps)
  then have "(y - 1) div k = y div k - 1"
    using k by (intro int_div_pos_eq[where r = "k - 1"]) auto
  with True show ?thesis by simp
next
  case False
  have m: "0 \<le> y mod k" "y mod k < k" using k by auto
  have "y = k * (y div k) + y mod k" by simp
  then have "y - 1 = k * (y div k) + (y mod k - 1)" by simp
  then have "(y - 1) div k = y div k"
    using k m False by (intro int_div_pos_eq[where r = "y mod k - 1"]) auto
  with False show ?thesis by simp
qed

lemma mod_400_100: "(y::int) mod 400 = 0 \<Longrightarrow> y mod 100 = 0"
proof -
  assume "y mod 400 = 0"
  then have "400 dvd y" by (simp add: dvd_eq_mod_eq_0)
  moreover have "(100::int) dvd 400" by simp
  ultimately have "100 dvd y" by (rule dvd_trans[rotated])
  then show ?thesis by (simp add: dvd_eq_mod_eq_0)
qed

lemma mod_100_4: "(y::int) mod 100 = 0 \<Longrightarrow> y mod 4 = 0"
proof -
  assume "y mod 100 = 0"
  then have "100 dvd y" by (simp add: dvd_eq_mod_eq_0)
  moreover have "(4::int) dvd 100" by simp
  ultimately have "4 dvd y" by (rule dvd_trans[rotated])
  then show ?thesis by (simp add: dvd_eq_mod_eq_0)
qed

lemma days_before_year_step: "days_before_year (y + 1) = days_before_year y + year_length y"
proof -
  define e4 :: int where "e4 = (if y mod 4 = 0 then 1 else 0)"
  define e100 :: int where "e100 = (if y mod 100 = 0 then 1 else 0)"
  define e400 :: int where "e400 = (if y mod 400 = 0 then 1 else 0)"
  have d: "y div 4 = (y - 1) div 4 + e4" "y div 100 = (y - 1) div 100 + e100"
    "y div 400 = (y - 1) div 400 + e400"
    unfolding e4_def e100_def e400_def by (rule div_step, simp)+
  have "days_before_year (y + 1) = days_before_year y + (365 + e4 - e100 + e400)"
    unfolding days_before_year_def using d by simp
  moreover have "365 + e4 - e100 + e400 = year_length y"
  proof (cases "y mod 400 = 0")
    case True
    with mod_400_100[of y] mod_100_4[of y] show ?thesis
      by (simp add: e4_def e100_def e400_def year_length_def isLeapYear_def)
  next
    case n400: False
    show ?thesis
    proof (cases "y mod 100 = 0")
      case True
      with n400 mod_100_4[of y] show ?thesis
        by (simp add: e4_def e100_def e400_def year_length_def isLeapYear_def)
    next
      case False
      with n400 show ?thesis
        by (simp add: e4_def e100_def e400_def year_length_def isLeapYear_def)
    qed
  qed
  ultimately show ?thesis by simp
qed

lemma days_before_month_table:
  assumes "1 \<le> m" "m \<le> 12"
  shows "days_before_month y m = month_offset m + (if 2 < m \<and> isLeapYear y then 1 else 0)"
proof -
  from assms have "m = 1 \<or> m = 2 \<or> m = 3 \<or> m = 4 \<or> m = 5 \<or> m = 6 \<or> m = 7 \<or> m = 8
      \<or> m = 9 \<or> m = 10 \<or> m = 11 \<or> m = 12" by arith
  then show ?thesis
    by (elim disjE) (simp_all add: days_before_month_def month_offset_def getDaysInMonth_def upt_rec)
qed

lemma days_before_month_Suc:
  "0 < m \<Longrightarrow> days_before_month y (Suc m) = days_before_month y m + int (getDaysInMonth y m)"
  by (simp add: days_before_month_def)

lemma prev_day_valid:
  assumes "valid_date t"
  shows "valid_date (prev_day t)" and "day_number (prev_day t) = day_number t - 1"
proof -
  obtain y m d where t: "t = YMD y m d" by (cases t)
  have "valid_date (prev_day t) \<and> day_number (prev_day t) = day_number t - 1"
  proof (cases "1 < d")
    case True
    with assms t show ?thesis by (auto simp: valid_date_def day_number_def)
  next
    case d1: False
    show ?thesis
    proof (cases "1 < m")
      case True
      then obtain m' where m': "m = Suc m'" "0 < m'" by (cases m) auto
      with assms t d1 show ?thesis
        by (auto simp: valid_date_def day_number_def days_before_month_Suc getDaysInMonth_def)
    next
      case False
      with assms t d1 have md: "m = 1" "d = 1" by (auto simp: valid_date_def)
      have "days_before_month (y - 1) 12 + 31 = year_length (y - 1)"
        by (simp add: days_before_month_table month_offset_def year_length_def)
      moreover have "days_before_month y 1 = 0" by (simp add: days_before_month_def)
      ultimately show ?thesis
        using days_before_year_step[of "y - 1"] t md
        by (simp add: valid_date_def day_number_def getDaysInMonth_def)
    qed
  qed
  then show "valid_date (prev_day t)" and "day_number (prev_day t) = day_number t - 1" by simp_all
qed


subsection \<open>Years of the dates in a window\<close>












subsection \<open>Day strings of a window are distinct\<close>







subsection \<open>Parsing a printed day\<close>






section \<open>Properties of date objects\<close>

lemma next_prev_day: "valid_date t \<Longrightarrow> next_day (prev_day t) = t"
proof -
  assume v: "valid_date t"
  obtain y m d where t: "t = YMD y m d" by (cases t)
  show ?thesis
  proof (cases "1 < d")
    case True
    with v t show ?thesis by (auto simp: valid_date_def)
  next
    case d1: False
    show ?thesis
    proof (cases "1 < m")
      case True
      with v t d1 show ?thesis by (auto simp: valid_date_def)
    next
      case False
      with v t d1 show ?thesis by (auto simp: valid_date_def getDaysInMonth_def)
    qed
  qed
qed


lemma subDays_pos:
  "0 < n \<Longrightarrow>
     subDays z date (int n) = make_local z (days_back (day_of date) n) (time_of date)"
  by (simp add: subDays_def addDays_def setDate_plus_def shift_days_def)





lemma div_mod_once:
  fixes x D :: int
  assumes "D \<le> x" "x < 2 * D"
  shows "x div D = 1" and "x mod D = x - D"
proof -
  have x: "x = D * 1 + (x - D)" by simp
  have r: "0 \<le> x - D" "x - D < D" using assms by simp_all
  show "x div D = 1" by (rule int_div_pos_eq[OF x r])
  show "x mod D = x - D" by (rule int_mod_pos_eq[OF x r])
qed

text \<open>
  One step back from a reading of the clock, in a zone whose skips are shorter than a day:
  the result is again a day with a time of day in it, and it shows either the day before,
  or the same day at an earlier time of day (the time asked for on the day before does not
  exist, and the time shown in its place lies past midnight).
\<close>

lemma subDays_1_cases:
  assumes c: "clock_reading c" and z: "short_skips z"
  shows "clock_reading (subDays z c 1)"
    and "day_of (subDays z c 1) = prev_day (day_of c)
         \<or> (day_of (subDays z c 1) = day_of c \<and> time_of (subDays z c 1) < time_of c)"
proof -
  let ?p = "prev_day (day_of c)"
  let ?t = "time_of c"
  let ?g = "z ?p ?t"
  have s: "subDays z c 1 = make_local z ?p ?t"
    using subDays_pos[of 1 z c] by simp
  from c have v: "valid_date (day_of c)" and t: "0 \<le> ?t" "?t < ms_per_day"
    by (simp_all add: clock_reading_def)
  have vp: "valid_date ?p" using v by (rule prev_day_valid)
  from z have g: "?g < ms_per_day" by (simp add: short_skips_def)
  have "clock_reading (subDays z c 1)
      \<and> (day_of (subDays z c 1) = ?p
          \<or> (day_of (subDays z c 1) = day_of c \<and> time_of (subDays z c 1) < ?t))"
  proof (cases "?g \<le> 0")
    case True
    then have "subDays z c 1 = JSDate ?p ?t" by (simp add: s make_local_def)
    with vp t show ?thesis by (simp add: clock_reading_def)
  next
    case pos: False
    show ?thesis
    proof (cases "?t + ?g < ms_per_day")
      case True
      with pos t have "(?t + ?g) div ms_per_day = 0" "(?t + ?g) mod ms_per_day = ?t + ?g"
        by simp_all
      with pos have "subDays z c 1 = JSDate ?p (?t + ?g)"
        by (simp add: s make_local_def Let_def)
      with vp t pos True show ?thesis by (simp add: clock_reading_def)
    next
      case False
      then have "ms_per_day \<le> ?t + ?g" "?t + ?g < 2 * ms_per_day" using t g by simp_all
      from div_mod_once[OF this] pos
      have "subDays z c 1 = JSDate (next_day ?p) (?t + ?g - ms_per_day)"
        by (simp add: s make_local_def Let_def)
      with next_prev_day[OF v] have "subDays z c 1 = JSDate (day_of c) (?t + ?g - ms_per_day)"
        by simp
      with v t g False show ?thesis by (simp add: clock_reading_def)
    qed
  qed
  then show "clock_reading (subDays z c 1)"
    and "day_of (subDays z c 1) = prev_day (day_of c)
         \<or> (day_of (subDays z c 1) = day_of c \<and> time_of (subDays z c 1) < time_of c)"
    by simp_all
qed

section \<open>Properties of the heatmap\<close>

lemma heatmap_loop_eq:
  "heatmap_loop z today byDate n acc = acc @ map (heatmap_entry z today byDate) (rev [0..<n])"
  by (induction n arbitrary: acc) simp_all

lemma generateHeatmapData_eq:
  "generateHeatmapData z today sessions =
     map (heatmap_entry z today (sessionsByDate sessions)) (rev [0..<365])"
  by (simp add: generateHeatmapData_def heatmap_loop_eq)

lemma last_generateHeatmapData:
  "last (generateHeatmapData z today sessions) = heatmap_entry z today (sessionsByDate sessions) 0"
  by (simp add: generateHeatmapData_eq last_map last_rev)

lemma last_in_generateHeatmapData:
  "last (generateHeatmapData z today sessions) \<in> set (generateHeatmapData z today sessions)"
  by (rule last_in_set) (simp add: generateHeatmapData_eq)

text \<open>
  Claim C4 (heatmap quantization). Every entry of the generated heatmap has its level
  fixed by its count: count 0 gives level 0, count 1 gives level 3, count 2 gives level 4,
  a count of 3 or more gives level 5; levels 1 and 2 never occur.
\<close>

theorem heatmap_quantization:
  "\<forall>e \<in> set (generateHeatmapData z today sessions).
     (count_h e = 0 \<longrightarrow> level_h e = 0) \<and> (count_h e = 1 \<longrightarrow> level_h e = 3)
     \<and> (count_h e = 2 \<longrightarrow> level_h e = 4) \<and> (count_h e \<ge> 3 \<longrightarrow> level_h e = 5)
     \<and> level_h e \<noteq> 1 \<and> level_h e \<noteq> 2"
  by (auto simp: generateHeatmapData_eq heatmap_entry_def Let_def heatmap_level_def)

text \<open>Two sessions today: today's entry has count 2 and level 4.\<close>

theorem heatmap_quantization_witness:
  "count_h (last (generateHeatmapData no_skips (JSDate (YMD 2024 1 3) noon)
       [session_on ''a'' ''2024-01-03'' 30, session_on ''b'' ''2024-01-03'' 45])) = 2
   \<and> level_h (last (generateHeatmapData no_skips (JSDate (YMD 2024 1 3) noon)
       [session_on ''a'' ''2024-01-03'' 30, session_on ''b'' ''2024-01-03'' 45])) = 4"
proof -
  let ?hm = "generateHeatmapData no_skips (JSDate (YMD 2024 1 3) noon)
       [session_on ''a'' ''2024-01-03'' 30, session_on ''b'' ''2024-01-03'' 45]"
  have c: "count_h (last ?hm) = 2"
    unfolding last_generateHeatmapData by code_simp
  from heatmap_quantization[of no_skips "JSDate (YMD 2024 1 3) noon"
       "[session_on ''a'' ''2024-01-03'' 30, session_on ''b'' ''2024-01-03'' 45]"]
    last_in_generateHeatmapData c
  have "level_h (last ?hm) = 4" by blast
  with c show ?thesis by simp
qed


lemma generateHeatmapData_nth:
  assumes "k < 365"
  shows "generateHeatmapData z today sessions ! k
           = heatmap_entry z today (sessionsByDate sessions) (364 - k)"
proof -
  have "rev [0..<365] ! k = 364 - k" using assms by (simp add: rev_nth)
  then show ?thesis using assms by (simp add: generateHeatmapData_eq)
qed

lemma date_h_heatmap_entry:
  "date_h (heatmap_entry z today byDate i) = formatDate (day_of (subDays z today (int i)))"
  by (simp add: heatmap_entry_def Let_def)

lemma date_h_nth:
  "k < 365 \<Longrightarrow>
     date_h (generateHeatmapData z today sessions ! k)
       = formatDate (day_of (subDays z today (int (364 - k))))"
  by (simp add: generateHeatmapData_nth date_h_heatmap_entry)







text \<open>
  A zone that skips a whole day shows the same at every time of day. At noon on 5 January
  2012 in the zone that skips 30 December 2011, the step back to the skipped day shows
  31 December, which stands twice in the window.
\<close>

lemma skipped_day_window:
  "date_h (generateHeatmapData whole_day_skipped (JSDate (YMD 2012 1 5) noon) sessions ! 358)
     = ''2011-12-31''"
  "date_h (generateHeatmapData whole_day_skipped (JSDate (YMD 2012 1 5) noon) sessions ! 359)
     = ''2011-12-31''"
proof -
  have "formatDate (day_of (subDays whole_day_skipped (JSDate (YMD 2012 1 5) noon) 6))
      = ''2011-12-31''" by code_simp
  then show "date_h (generateHeatmapData whole_day_skipped (JSDate (YMD 2012 1 5) noon)
      sessions ! 358) = ''2011-12-31''"
    by (simp add: date_h_nth)
  have "formatDate (day_of (subDays whole_day_skipped (JSDate (YMD 2012 1 5) noon) 5))
      = ''2011-12-31''" by code_simp
  then show "date_h (generateHeatmapData whole_day_skipped (JSDate (YMD 2012 1 5) noon)
      sessions ! 359) = ''2011-12-31''"
    by (simp add: date_h_nth)
qed














section \<open>Properties of the streaks\<close>

subsection \<open>The walk back from today ends where no whole day is skipped\<close>

text \<open>
  Each step of the walk moves to an earlier day, or stays on its day at an earlier time.
  Only finitely many days print to one of the finitely many session strings, so the days
  still ahead of the walk (\<open>pending\<close>) shrink with every step to an earlier day, and the
  time of day cannot fall for ever: the walk leaves the session dates after finitely many
  steps.
\<close>

lemma date_before_prev_day: "date_before (prev_day t) t"
  by (cases t) (simp add: date_before_def)

lemma date_before_trans: "date_before a b \<Longrightarrow> date_before b c \<Longrightarrow> date_before a c"
  by (auto simp: date_before_def)

lemma date_before_irrefl: "\<not> date_before a a"
  by (simp add: date_before_def)

lemma finite_pending: "finite (pending u c)"
  unfolding pending_def by (rule finite_subset[OF _ finite_formatDate_in[of u]]) auto

lemma pending_prev_day:
  assumes "formatDate c \<in> set u"
  shows "card (pending u (prev_day c)) < card (pending u c)"
proof (rule psubset_card_mono[OF finite_pending])
  have "c \<in> pending u c" using assms by (simp add: pending_def)
  moreover have "c \<notin> pending u (prev_day c)"
    using date_before_prev_day[of c] date_before_trans[of c "prev_day c" c] date_before_irrefl[of c]
    by (auto simp: pending_def)
  moreover have "pending u (prev_day c) \<subseteq> pending u c"
    using date_before_prev_day[of c] date_before_trans[of _ "prev_day c" c]
    by (auto simp: pending_def)
  ultimately show "pending u (prev_day c) \<subset> pending u c" by blast
qed

lemma current_streak_loop_returns:
  assumes z: "short_skips z" and c: "clock_reading c"
  shows "\<exists>k. current_streak_loop z u c n = Some k"
proof -
  define R where
    "R = inv_image (less_than <*lex*> less_than)
           (\<lambda>c. (card (pending u (day_of c)), nat (time_of c)))"
  have wf: "wf R"
    unfolding R_def by (intro wf_inv_image wf_lex_prod wf_less_than)
  have "clock_reading c \<longrightarrow> (\<forall>n. \<exists>k. current_streak_loop z u c n = Some k)"
  proof (induction c rule: wf_induct_rule[OF wf])
    case (1 c)
    show ?case
    proof (intro impI allI)
      fix n assume cr: "clock_reading c"
      show "\<exists>k. current_streak_loop z u c n = Some k"
      proof (cases "formatDate (day_of c) \<in> set u")
        case False
        then show ?thesis by (subst current_streak_loop.simps) simp
      next
        case True
        let ?c' = "subDays z c 1"
        note step = subDays_1_cases[OF cr z]
        from step(1) have t': "0 \<le> time_of ?c'" by (simp add: clock_reading_def)
        from step(2) pending_prev_day[OF True] t' have "(?c', c) \<in> R"
          by (auto simp: R_def)
        from 1[OF this] step(1) obtain k where "current_streak_loop z u ?c' (n + 1) = Some k"
          by blast
        with True show ?thesis by (subst current_streak_loop.simps) simp
      qed
    qed
  qed
  with c show ?thesis by simp
qed

text \<open>
  Where a whole day is skipped the walk can run forever. In the zone that skips
  30 December 2011, one step back from 31 December shows 31 December again, at the same
  time of day; with a session on that day the walk never leaves it, and
  \<open>calculateStreaks\<close> does not return.
\<close>

lemma subDays_stuck:
  "subDays whole_day_skipped (JSDate (YMD 2011 12 31) noon) 1 = JSDate (YMD 2011 12 31) noon"
  by code_simp

lemma current_streak_loop_stuck:
  "current_streak_loop whole_day_skipped [''2011-12-31''] (JSDate (YMD 2011 12 31) noon) n = None"
proof -
  let ?stuck = "\<lambda>(z::Zone) u c. z = whole_day_skipped \<and> u = [''2011-12-31'']
      \<and> c = JSDate (YMD 2011 12 31) noon"
  have f: "formatDate (YMD 2011 12 31) = ''2011-12-31''" by code_simp
  have ns: "\<not> ?stuck z u c" if r: "current_streak_loop z u c n = Some y" for z u c n y
  proof (rule current_streak_loop.raw_induct[where P = "\<lambda>z u c n y. \<not> ?stuck z u c", OF _ r])
    fix walk :: "Zone \<Rightarrow> string list \<Rightarrow> JSDate \<Rightarrow> nat \<Rightarrow> nat option"
      and z u c and n y :: nat
    assume IH: "\<And>z u c n y. walk z u c n = Some y \<Longrightarrow> \<not> ?stuck z u c"
      and e: "(if formatDate (day_of c) \<in> set u then walk z u (subDays z c 1) (n + 1)
               else Some n) = Some y"
    show "\<not> ?stuck z u c"
    proof
      assume a: "?stuck z u c"
      with e f have "walk z u (subDays z c 1) (n + 1) = Some y" by simp
      with a subDays_stuck have "walk z u c (n + 1) = Some y" by simp
      from IH[OF this] a show False by simp
    qed
  qed
  show ?thesis
  proof (cases "current_streak_loop whole_day_skipped [''2011-12-31'']
                  (JSDate (YMD 2011 12 31) noon) n")
    case None
    then show ?thesis .
  next
    case (Some y)
    from ns[OF this] show ?thesis by simp
  qed
qed

lemma calculateStreaks_stuck:
  "calculateStreaks whole_day_skipped (JSDate (YMD 2011 12 31) noon)
     [session_on ''a'' ''2011-12-31'' 30] = None"
proof -
  have "uniqueDates_of [session_on ''a'' ''2011-12-31'' 30] = [''2011-12-31'']" by code_simp
  moreover have "formatDate (day_of (JSDate (YMD 2011 12 31) noon)) = ''2011-12-31''" by code_simp
  ultimately show ?thesis
    by (simp add: calculateStreaks_def Let_def current_streak_loop_stuck)
qed

subsection \<open>The distinct session dates, sorted\<close>

lemma new_Set_fold:
  "set (foldl (\<lambda>acc x. if x \<in> set acc then acc else acc @ [x]) acc xs) = set acc \<union> set xs
   \<and> (distinct acc \<longrightarrow> distinct (foldl (\<lambda>acc x. if x \<in> set acc then acc else acc @ [x]) acc xs))"
  by (induction xs arbitrary: acc) auto

lemma set_new_Set: "set (new_Set xs) = set xs"
  using new_Set_fold[of "[]" xs] by (simp add: new_Set_def)

lemma distinct_new_Set: "distinct (new_Set xs)"
  using new_Set_fold[of "[]" xs] by (simp add: new_Set_def)

lemma uniqueDates_of_props:
  "sorted (uniqueDates_of sessions)" "distinct (uniqueDates_of sessions)"
  "set (uniqueDates_of sessions) = date_s ` set sessions"
  by (simp_all add: uniqueDates_of_def set_new_Set distinct_new_Set)

subsection \<open>The longest streak is the longest run\<close>

lemma longest_streak_loop_scan:
  "0 < i \<Longrightarrow> i \<le> length u \<Longrightarrow>
     max (fst (longest_streak_loop u i l t)) (snd (longest_streak_loop u i l t))
       = run_scan (u ! (i - 1)) (drop i u) l t"
proof (induction u i l t rule: longest_streak_loop.induct)
  case (1 u i l t)
  show ?case
  proof (cases "i < length u")
    case False
    then have "longest_streak_loop u i l t = (l, t)"
      by (subst longest_streak_loop.simps) simp
    moreover from False "1.prems" have "drop i u = []" by simp
    ultimately show ?thesis by simp
  next
    case True
    then have d: "drop i u = u ! i # drop (Suc i) u" by (simp add: Cons_nth_drop_Suc)
    from "1.prems" True have i: "i \<noteq> 0" "0 < i + 1" "i + 1 \<le> length u" by simp_all
    show ?thesis
    proof (cases "consecutive_days (u ! (i - 1)) (u ! i)")
      case c: True
      then have "longest_streak_loop u i l t = longest_streak_loop u (i + 1) l (t + 1)"
        using True i(1) by (subst longest_streak_loop.simps) (simp add: consecutive_days_def Let_def)
      moreover have "max (fst (longest_streak_loop u (i + 1) l (t + 1)))
            (snd (longest_streak_loop u (i + 1) l (t + 1)))
          = run_scan (u ! (i + 1 - 1)) (drop (i + 1) u) l (t + 1)"
        using "1.IH"(2)[OF True i(1) refl refl refl _ i(2,3)] c
        by (simp add: consecutive_days_def)
      ultimately show ?thesis using c d by simp
    next
      case c: False
      then have "longest_streak_loop u i l t = longest_streak_loop u (i + 1) (max l t) 1"
        using True i(1) by (subst longest_streak_loop.simps) (simp add: consecutive_days_def Let_def)
      moreover have "max (fst (longest_streak_loop u (i + 1) (max l t) 1))
            (snd (longest_streak_loop u (i + 1) (max l t) 1))
          = run_scan (u ! (i + 1 - 1)) (drop (i + 1) u) (max l t) 1"
        using "1.IH"(3)[OF True i(1) refl refl refl _ i(2,3)] c
        by (simp add: consecutive_days_def)
      ultimately show ?thesis using c d by simp
    qed
  qed
qed

lemma scan_ok_Nil: "scan_ok p [] l t (max l t)"
proof -
  have "\<And>r. prefix r [p] \<Longrightarrow> r \<noteq> [] \<Longrightarrow> r = [p]"
    by (metis prefix_Cons prefix_Nil)
  moreover have "max l t = l \<or> max l t = length [p] + t - 1" by auto
  moreover have "prefix [p] [p]" "successively consecutive_days [p]" by simp_all
  ultimately show ?thesis unfolding scan_ok_def by (intro conjI; fastforce)
qed

lemma scan_ok_extend:
  assumes c: "consecutive_days p x" and ok: "scan_ok x xs l (t + 1) v"
  shows "scan_ok p (x # xs) l t v"
proof -
  from ok have l: "l \<le> v"
    and pre: "\<And>r. prefix r (x # xs) \<Longrightarrow> r \<noteq> [] \<Longrightarrow> successively consecutive_days r
                \<Longrightarrow> length r + t \<le> v"
    and sub: "\<And>r. sublist r xs \<Longrightarrow> successively consecutive_days r \<Longrightarrow> length r \<le> v"
    and att: "v = l
          \<or> (\<exists>r. prefix r (x # xs) \<and> r \<noteq> [] \<and> successively consecutive_days r
                 \<and> v = length r + t)
          \<or> (\<exists>r. sublist r xs \<and> successively consecutive_days r \<and> v = length r)"
    unfolding scan_ok_def by auto
  have p1: "length r + t - 1 \<le> v"
    if "prefix r (p # x # xs)" "r \<noteq> []" "successively consecutive_days r" for r
  proof -
    from that(1,2) obtain r' where r: "r = p # r'" "prefix r' (x # xs)" by (cases r) auto
    show ?thesis
    proof (cases "r' = []")
      case True
      from pre[of "[x]"] have "t + 1 \<le> v" by simp
      with r True show ?thesis by simp
    next
      case False
      with r(2) obtain r'' where "r' = x # r''" by (cases r') auto
      with that(3) r have "successively consecutive_days r'" by simp
      from pre[OF r(2) False this] r show ?thesis by simp
    qed
  qed
  have p2: "length r \<le> v" if "sublist r (x # xs)" "successively consecutive_days r" for r
  proof (cases "r = []")
    case True
    then show ?thesis by simp
  next
    case False
    from that(1) have "prefix r (x # xs) \<or> sublist r xs" by (simp add: sublist_Cons_right)
    then show ?thesis
    proof
      assume "prefix r (x # xs)"
      from pre[OF this False that(2)] show ?thesis by simp
    next
      assume "sublist r xs"
      from sub[OF this that(2)] show ?thesis .
    qed
  qed
  have p3: "v = l
      \<or> (\<exists>r. prefix r (p # x # xs) \<and> r \<noteq> [] \<and> successively consecutive_days r
             \<and> v = length r + t - 1)
      \<or> (\<exists>r. sublist r (x # xs) \<and> successively consecutive_days r \<and> v = length r)"
    using att
  proof (elim disjE exE conjE)
    assume "v = l"
    then show ?thesis by simp
  next
    fix r assume r: "prefix r (x # xs)" "r \<noteq> []" "successively consecutive_days r"
      "v = length r + t"
    then obtain r'' where "r = x # r''" by (cases r) auto
    with r c have "prefix (p # r) (p # x # xs) \<and> p # r \<noteq> []
        \<and> successively consecutive_days (p # r) \<and> v = length (p # r) + t - 1" by simp
    then show ?thesis by blast
  next
    fix r assume "sublist r xs" "successively consecutive_days r" "v = length r"
    then have "sublist r (x # xs) \<and> successively consecutive_days r \<and> v = length r"
      by (simp add: sublist_Cons_right)
    then show ?thesis by blast
  qed
  from l p1 p2 p3 show ?thesis unfolding scan_ok_def by blast
qed

lemma scan_ok_restart:
  assumes c: "\<not> consecutive_days p x" and ok: "scan_ok x xs (max l t) 1 v"
  shows "scan_ok p (x # xs) l t v"
proof -
  from ok have l: "max l t \<le> v"
    and pre: "\<And>r. prefix r (x # xs) \<Longrightarrow> r \<noteq> [] \<Longrightarrow> successively consecutive_days r
                \<Longrightarrow> length r \<le> v"
    and sub: "\<And>r. sublist r xs \<Longrightarrow> successively consecutive_days r \<Longrightarrow> length r \<le> v"
    and att: "v = max l t
          \<or> (\<exists>r. prefix r (x # xs) \<and> r \<noteq> [] \<and> successively consecutive_days r
                 \<and> v = length r)
          \<or> (\<exists>r. sublist r xs \<and> successively consecutive_days r \<and> v = length r)"
    unfolding scan_ok_def by auto
  have p1: "length r + t - 1 \<le> v"
    if "prefix r (p # x # xs)" "r \<noteq> []" "successively consecutive_days r" for r
  proof -
    from that(1,2) obtain r' where r: "r = p # r'" "prefix r' (x # xs)" by (cases r) auto
    have "r' = []"
    proof (rule ccontr)
      assume "r' \<noteq> []"
      with r(2) obtain r'' where "r' = x # r''" by (cases r') auto
      with that(3) r c show False by simp
    qed
    with r l show ?thesis by simp
  qed
  have p2: "length r \<le> v" if "sublist r (x # xs)" "successively consecutive_days r" for r
  proof (cases "r = []")
    case True
    then show ?thesis by simp
  next
    case False
    from that(1) have "prefix r (x # xs) \<or> sublist r xs" by (simp add: sublist_Cons_right)
    then show ?thesis
    proof
      assume "prefix r (x # xs)"
      from pre[OF this False that(2)] show ?thesis .
    next
      assume "sublist r xs"
      from sub[OF this that(2)] show ?thesis .
    qed
  qed
  have p3: "v = l
      \<or> (\<exists>r. prefix r (p # x # xs) \<and> r \<noteq> [] \<and> successively consecutive_days r
             \<and> v = length r + t - 1)
      \<or> (\<exists>r. sublist r (x # xs) \<and> successively consecutive_days r \<and> v = length r)"
    using att
  proof (elim disjE exE conjE)
    assume v: "v = max l t"
    show ?thesis
    proof (cases "t \<le> l")
      case True
      with v show ?thesis by (simp add: max_def)
    next
      case False
      with v have "prefix [p] (p # x # xs) \<and> [p] \<noteq> [] \<and> successively consecutive_days [p]
          \<and> v = length [p] + t - 1" by (simp add: max_def)
      then show ?thesis by blast
    qed
  next
    fix r assume r: "prefix r (x # xs)" "r \<noteq> []" "successively consecutive_days r" "v = length r"
    then have "sublist r (x # xs) \<and> successively consecutive_days r \<and> v = length r"
      by (simp add: sublist_Cons_right)
    then show ?thesis by blast
  next
    fix r assume "sublist r xs" "successively consecutive_days r" "v = length r"
    then have "sublist r (x # xs) \<and> successively consecutive_days r \<and> v = length r"
      by (simp add: sublist_Cons_right)
    then show ?thesis by blast
  qed
  from l p1 p2 p3 show ?thesis unfolding scan_ok_def by auto
qed

lemma run_scan_ok: "scan_ok p xs l t (run_scan p xs l t)"
proof (induction xs arbitrary: p l t)
  case Nil
  show ?case by (simp add: scan_ok_Nil)
next
  case (Cons x xs)
  show ?case
  proof (cases "consecutive_days p x")
    case True
    with scan_ok_extend[OF True Cons[of x l "t + 1"]] show ?thesis by simp
  next
    case False
    with scan_ok_restart[OF False Cons[of x "max l t" 1]] show ?thesis by simp
  qed
qed

lemma longest_of_loop:
  "max (fst (longest_streak_loop u 0 0 0)) (snd (longest_streak_loop u 0 0 0))
     = (case u of [] \<Rightarrow> 0 | p # xs \<Rightarrow> run_scan p xs 0 1)"
proof (cases u)
  case Nil
  then show ?thesis by (subst (1 2) longest_streak_loop.simps) simp
next
  case (Cons p xs)
  then have "longest_streak_loop u 0 0 0 = longest_streak_loop u 1 0 1"
    by (subst longest_streak_loop.simps) simp
  with longest_streak_loop_scan[of 1 u 0 1] Cons show ?thesis by simp
qed

text \<open>
  The longest streak of a result is the value of the scan, whatever the clock and the zone
  are; and the function returns for every reading of the clock in a zone that never skips
  a whole day.
\<close>

lemma calculateStreaks_longest:
  assumes "calculateStreaks z now sessions = Some (c, l)"
  shows "l = (case uniqueDates_of sessions of [] \<Rightarrow> 0 | p # xs \<Rightarrow> run_scan p xs 0 1)"
proof (cases "sessions = []")
  case True
  with assms show ?thesis by (simp add: calculateStreaks_def uniqueDates_of_def new_Set_def)
next
  case False
  with assms show ?thesis
    by (auto simp: calculateStreaks_def Let_def longest_of_loop split: option.splits)
qed

lemma calculateStreaks_returns:
  assumes "short_skips z" "clock_reading now"
  shows "\<exists>c l. calculateStreaks z now sessions = Some (c, l)"
proof -
  from current_streak_loop_returns[OF assms, of "uniqueDates_of sessions" 0]
  obtain k where "current_streak_loop z (uniqueDates_of sessions) now 0 = Some k" ..
  then show ?thesis by (simp add: calculateStreaks_def Let_def)
qed

lemma longest_run_scan:
  fixes u :: "string list"
  defines "v \<equiv> (case u of [] \<Rightarrow> 0 | p # xs \<Rightarrow> run_scan p xs 0 1)"
  shows "\<forall>r. sublist r u \<and> successively consecutive_days r \<longrightarrow> length r \<le> v"
    and "\<exists>r. sublist r u \<and> successively consecutive_days r \<and> length r = v"
proof -
  show "\<forall>r. sublist r u \<and> successively consecutive_days r \<longrightarrow> length r \<le> v"
  proof (cases u)
    case Nil
    then show ?thesis by simp
  next
    case (Cons p xs)
    then have v: "v = run_scan p xs 0 1" by (simp add: v_def)
    from run_scan_ok[of p xs 0 1] v
    have pre: "\<And>r. prefix r (p # xs) \<Longrightarrow> r \<noteq> [] \<Longrightarrow> successively consecutive_days r
                \<Longrightarrow> length r \<le> v"
      and sub: "\<And>r. sublist r xs \<Longrightarrow> successively consecutive_days r \<Longrightarrow> length r \<le> v"
      unfolding scan_ok_def by auto
    show ?thesis
    proof (intro allI impI)
      fix r assume r: "sublist r u \<and> successively consecutive_days r"
      show "length r \<le> v"
      proof (cases "r = []")
        case True
        then show ?thesis by simp
      next
        case False
        from r Cons have "prefix r (p # xs) \<or> sublist r xs" by (simp add: sublist_Cons_right)
        with pre[of r] sub[of r] False r show ?thesis by blast
      qed
    qed
  qed
  show "\<exists>r. sublist r u \<and> successively consecutive_days r \<and> length r = v"
  proof (cases u)
    case Nil
    then have "sublist [] u \<and> successively consecutive_days [] \<and> length ([]::string list) = v"
      by (simp add: v_def)
    then show ?thesis by blast
  next
    case (Cons p xs)
    then have v: "v = run_scan p xs 0 1" by (simp add: v_def)
    have ok: "scan_ok p xs 0 1 v" using run_scan_ok[of p xs 0 1] v by simp
    then have "\<forall>r. prefix r (p # xs) \<and> r \<noteq> [] \<and> successively consecutive_days r
        \<longrightarrow> length r \<le> v"
      unfolding scan_ok_def by simp
    from this[rule_format, of "[p]"] have one: "1 \<le> v" by simp
    from ok have att: "v = 0
        \<or> (\<exists>r. prefix r (p # xs) \<and> r \<noteq> [] \<and> successively consecutive_days r
               \<and> v = length r)
        \<or> (\<exists>r. sublist r xs \<and> successively consecutive_days r \<and> v = length r)"
      unfolding scan_ok_def by simp
    from one have "v \<noteq> 0" by simp
    with att consider r where "prefix r (p # xs)" "successively consecutive_days r" "v = length r"
      | r where "sublist r xs" "successively consecutive_days r" "v = length r"
      by auto
    then show ?thesis
    proof cases
      case 1
      then have "sublist r u \<and> successively consecutive_days r \<and> length r = v"
        using Cons by simp
      then show ?thesis by blast
    next
      case 2
      then have "sublist r u \<and> successively consecutive_days r \<and> length r = v"
        using Cons by (simp add: sublist_Cons_right)
      then show ?thesis by blast
    qed
  qed
qed

text \<open>
  Claim C6 (longest streak). The list the loop scans is the list of the distinct session
  dates in ascending order. The longest streak of every result of \<open>calculateStreaks\<close> is at
  least the length of every run of consecutive days in that list and is the length of one
  of them: it is the maximum length of a run. It does not depend on the clock or the zone
  the function is called with, so the current streak (which does) cannot lower it. The
  function returns a result for every reading of the clock in a zone that never skips a
  whole day.
\<close>

theorem longestStreak_is_longest_run:
  "sorted (uniqueDates_of sessions) \<and> distinct (uniqueDates_of sessions)
   \<and> set (uniqueDates_of sessions) = date_s ` set sessions
   \<and> (\<forall>c l. calculateStreaks z now sessions = Some (c, l) \<longrightarrow>
         (\<forall>r. sublist r (uniqueDates_of sessions) \<and> successively consecutive_days r
              \<longrightarrow> length r \<le> l)
         \<and> (\<exists>r. sublist r (uniqueDates_of sessions) \<and> successively consecutive_days r
                \<and> length r = l)
         \<and> (\<forall>c' l'. calculateStreaks z' now' sessions = Some (c', l') \<longrightarrow> l' = l))
   \<and> (short_skips z \<and> clock_reading now \<longrightarrow>
         (\<exists>c l. calculateStreaks z now sessions = Some (c, l)))"
proof (intro conjI allI impI)
  show "sorted (uniqueDates_of sessions)" "distinct (uniqueDates_of sessions)"
    "set (uniqueDates_of sessions) = date_s ` set sessions"
    by (rule uniqueDates_of_props)+
next
  fix c l r
  assume "calculateStreaks z now sessions = Some (c, l)"
    and "sublist r (uniqueDates_of sessions) \<and> successively consecutive_days r"
  then show "length r \<le> l"
    using longest_run_scan(1)[of "uniqueDates_of sessions"] calculateStreaks_longest by blast
next
  fix c l
  assume "calculateStreaks z now sessions = Some (c, l)"
  then show "\<exists>r. sublist r (uniqueDates_of sessions) \<and> successively consecutive_days r
      \<and> length r = l"
    using longest_run_scan(2)[of "uniqueDates_of sessions"] calculateStreaks_longest by blast
next
  fix c l c' l'
  assume "calculateStreaks z now sessions = Some (c, l)"
    and "calculateStreaks z' now' sessions = Some (c', l')"
  then show "l' = l"
    using calculateStreaks_longest[of z now sessions c l]
      calculateStreaks_longest[of z' now' sessions c' l'] by simp
next
  assume "short_skips z \<and> clock_reading now"
  then show "\<exists>c l. calculateStreaks z now sessions = Some (c, l)"
    by (simp add: calculateStreaks_returns)
qed

text \<open>
  A 5-day run (1 to 5 January), a gap, then a 2-day run ending today (10 January): the
  current streak is 2, the longest streak is 5.
\<close>

theorem longestStreak_is_longest_run_witness:
  "short_skips no_skips \<and> clock_reading (JSDate (YMD 2024 1 10) noon)
   \<and> calculateStreaks no_skips (JSDate (YMD 2024 1 10) noon) two_runs = Some (2, 5)
   \<and> length [''2024-01-01'', ''2024-01-02'', ''2024-01-03'', ''2024-01-04'', ''2024-01-05'']
        \<le> (5::nat)"
proof -
  let ?r = "[''2024-01-01'', ''2024-01-02'', ''2024-01-03'', ''2024-01-04'', ''2024-01-05'']"
  let ?now = "JSDate (YMD 2024 1 10) noon"
  have z: "short_skips no_skips" by (simp add: short_skips_def no_skips_def ms_per_day_def)
  have n: "clock_reading ?now"
    by (simp add: clock_reading_def valid_date_def getDaysInMonth_def noon_def ms_per_day_def)
  have e: "calculateStreaks no_skips ?now two_runs = Some (2, 5)" by code_simp
  have s: "sublist ?r (uniqueDates_of two_runs)" by code_simp
  have c: "successively consecutive_days ?r" by code_simp
  note w = longestStreak_is_longest_run[of two_runs no_skips ?now no_skips ?now]
  from w z n have "\<exists>c l. calculateStreaks no_skips ?now two_runs = Some (c, l)" by blast
  from w e s c have "length ?r \<le> 5" by blast
  with z n e show ?thesis by simp
qed

subsection \<open>The current streak when today has no session\<close>

text \<open>
  The walk starts at today: when today has no session it stops at once, whatever
  yesterday holds, the time of day and the zone are.
\<close>

lemma currentStreak_without_today:
  assumes "formatDate (day_of now) \<notin> date_s ` set sessions"
  shows "\<exists>l. calculateStreaks z now sessions = Some (0, l)"
proof -
  have "formatDate (day_of now) \<notin> set (uniqueDates_of sessions)"
    using assms by (simp add: uniqueDates_of_props)
  then have "current_streak_loop z (uniqueDates_of sessions) now 0 = Some 0"
    by (subst current_streak_loop.simps) simp
  then show ?thesis by (simp add: calculateStreaks_def Let_def)
qed

text \<open>
  Claim C1 (current streak grace period): the code at the input where the claim fails.
  Today is 3 January and has no session; yesterday and the day before have one each.
  The test of the grace period passes (yesterday's string is among the dates), the walk
  then starts at today and stops there: the current streak is 0, not 2.
\<close>

theorem currentStreak_yesterday_only:
  "formatDate (day_of (subDays no_skips (JSDate (YMD 2024 1 3) noon) 1)) = ''2024-01-02''
   \<and> calculateStreaks no_skips (JSDate (YMD 2024 1 3) noon)
        [session_on ''a'' ''2024-01-02'' 30, session_on ''b'' ''2024-01-01'' 45] = Some (0, 2)"
  by code_simp

section \<open>Properties of the statistics\<close>

lemma foldl_duration:
  "foldl (\<lambda>sum session. sum + duration session) a xs = a + sum_list (map duration xs)"
  by (induction xs arbitrary: a) simp_all

lemma Math_round_eq_round: "Math_round x = round x"
  by (simp add: Math_round_def round_def)

lemma calculateStats_returns:
  assumes "short_skips z" "clock_reading now"
  shows "\<exists>st. calculateStats z now sessions = Some st"
proof -
  from calculateStreaks_returns[OF assms, of sessions]
  obtain c l where "calculateStreaks z now sessions = Some (c, l)" by blast
  then show ?thesis by (simp add: calculateStats_def Let_def)
qed

text \<open>
  Claim C8 (empty-input statistics). \<open>calculateStats\<close> of the empty list returns, for every
  clock and zone, the record with every field zero. For every list and every result, the
  number of sessions is the length of the list, the total is the sum of the durations, and
  the average is 0 when there is no session and otherwise the quotient of the total by the
  number of sessions, rounded to the nearest integer (a half upwards). The function
  returns a result for every reading of the clock in a zone that never skips a whole day.
\<close>

theorem calculateStats_empty_and_average:
  "calculateStats z now [] =
     Some \<lparr>totalSessions = 0, totalMinutes = 0, currentStreak = 0, longestStreak = 0,
           averageSessionDuration = 0, sessionsThisWeek = 0, sessionsThisMonth = 0,
           minutesThisWeek = 0, minutesThisMonth = 0\<rparr>
   \<and> (\<forall>st. calculateStats z now sessions = Some st \<longrightarrow>
         totalSessions st = int (length sessions)
         \<and> totalMinutes st = sum_list (map duration sessions)
         \<and> averageSessionDuration st =
             (if totalSessions st > 0
              then round (rat_of_int (totalMinutes st) / rat_of_int (totalSessions st))
              else 0))
   \<and> (short_skips z \<and> clock_reading now \<longrightarrow> (\<exists>st. calculateStats z now sessions = Some st))"
proof (intro conjI allI impI)
  show "calculateStats z now [] =
     Some \<lparr>totalSessions = 0, totalMinutes = 0, currentStreak = 0, longestStreak = 0,
           averageSessionDuration = 0, sessionsThisWeek = 0, sessionsThisMonth = 0,
           minutesThisWeek = 0, minutesThisMonth = 0\<rparr>"
    by (simp add: calculateStats_def calculateStreaks_def Let_def)
next
  fix st assume st: "calculateStats z now sessions = Some st"
  then show "totalSessions st = int (length sessions)"
    and "totalMinutes st = sum_list (map duration sessions)"
    and "averageSessionDuration st =
             (if totalSessions st > 0
              then round (rat_of_int (totalMinutes st) / rat_of_int (totalSessions st))
              else 0)"
    by (auto simp: calculateStats_def Let_def foldl_duration Math_round_eq_round
        split: option.splits)
next
  assume "short_skips z \<and> clock_reading now"
  then show "\<exists>st. calculateStats z now sessions = Some st"
    by (simp add: calculateStats_returns)
qed

text \<open>
  Sessions of 30 and 45 minutes on 1 and 2 January, seen at noon on 2 January: 2 sessions,
  75 minutes, an average of 38.
\<close>

theorem calculateStats_empty_and_average_witness:
  "short_skips no_skips \<and> clock_reading (JSDate (YMD 2024 1 2) noon)
   \<and> calculateStats no_skips (JSDate (YMD 2024 1 2) noon)
       [session_on ''a'' ''2024-01-01'' 30, session_on ''b'' ''2024-01-02'' 45]
      = Some \<lparr>totalSessions = 2, totalMinutes = 75, currentStreak = 2, longestStreak = 2,
         averageSessionDuration = 38, sessionsThisWeek = 2, sessionsThisMonth = 2,
         minutesThisWeek = 75, minutesThisMonth = 75\<rparr>
   \<and> round (rat_of_int 75 / rat_of_int 2) = (38::int)"
proof -
  let ?ss = "[session_on ''a'' ''2024-01-01'' 30, session_on ''b'' ''2024-01-02'' 45]"
  let ?now = "JSDate (YMD 2024 1 2) noon"
  let ?st = "\<lparr>totalSessions = 2, totalMinutes = 75, currentStreak = 2, longestStreak = 2,
         averageSessionDuration = 38, sessionsThisWeek = 2, sessionsThisMonth = 2,
         minutesThisWeek = 75, minutesThisMonth = 75\<rparr>"
  have z: "short_skips no_skips" by (simp add: short_skips_def no_skips_def ms_per_day_def)
  have n: "clock_reading ?now"
    by (simp add: clock_reading_def valid_date_def getDaysInMonth_def noon_def ms_per_day_def)
  have e: "calculateStats no_skips ?now ?ss = Some ?st" by code_simp
  note w = calculateStats_empty_and_average[of no_skips ?now ?ss]
  from w z n have "\<exists>st. calculateStats no_skips ?now ?ss = Some st" by blast
  from w e have "averageSessionDuration ?st =
             (if totalSessions ?st > 0
              then round (rat_of_int (totalMinutes ?st) / rat_of_int (totalSessions ?st))
              else 0)" by blast
  then have "round (rat_of_int 75 / rat_of_int 2) = (38::int)" by simp
  with z n e show ?thesis by simp
qed

section \<open>Properties of the storage functions\<close>





text \<open>
  Claim C2 (import), as amended. \<open>importData\<close> treats the two collections separately: it
  writes the sessions exactly when the parsed value is an object whose \<open>sessions\<close> is an
  array, and the badges exactly when its \<open>badges\<close> is an array. It returns true for every
  input that parses to a value other than \<^verbatim>\<open>null\<close>, whatever it wrote; it returns false,
  with the storage unchanged, when the input does not parse or parses to \<^verbatim>\<open>null\<close>.
\<close>

theorem importData_each_key:
  "fst (importData jsonData st) = (\<exists>data. jsonData = Json data \<and> data \<noteq> JNull)
   \<and> (\<not> fst (importData jsonData st) \<longrightarrow> snd (importData jsonData st) = st)
   \<and> SESSIONS (snd (importData jsonData st)) =
       (case jsonData of
          Json (JObject ps) \<Rightarrow>
            (case map_of ps ''sessions'' of
               Some (JArray xs) \<Rightarrow> Some (Json (JArray xs))
             | _ \<Rightarrow> SESSIONS st)
        | _ \<Rightarrow> SESSIONS st)
   \<and> BADGES (snd (importData jsonData st)) =
       (case jsonData of
          Json (JObject ps) \<Rightarrow>
            (case map_of ps ''badges'' of
               Some (JArray ys) \<Rightarrow> Some (Json (JArray ys))
             | _ \<Rightarrow> BADGES st)
        | _ \<Rightarrow> BADGES st)
   \<and> LAST_SESSION_DATE (snd (importData jsonData st)) = LAST_SESSION_DATE st"
proof (cases jsonData)
  case Unparsable
  then show ?thesis by (simp add: importData_def)
next
  case (Json data)
  show ?thesis
  proof (cases data)
    case (JObject ps)
    with Json show ?thesis
      by (simp add: importData_def saveSessions_def saveBadges_def Let_def
          split: option.split json.split)
  qed (use Json in \<open>simp_all add: importData_def\<close>)
qed

text \<open>An input with both arrays: both are written and the result is true.\<close>

theorem importData_each_key_witness:
  "fst (importData (Json (JObject [(''sessions'', JArray [JString ''s'']), (''badges'', JArray [])]))
          \<lparr>SESSIONS = None, BADGES = Some Unparsable, LAST_SESSION_DATE = None\<rparr>)
   \<and> SESSIONS (snd (importData
          (Json (JObject [(''sessions'', JArray [JString ''s'']), (''badges'', JArray [])]))
          \<lparr>SESSIONS = None, BADGES = Some Unparsable, LAST_SESSION_DATE = None\<rparr>))
       = Some (Json (JArray [JString ''s'']))
   \<and> BADGES (snd (importData
          (Json (JObject [(''sessions'', JArray [JString ''s'']), (''badges'', JArray [])]))
          \<lparr>SESSIONS = None, BADGES = Some Unparsable, LAST_SESSION_DATE = None\<rparr>))
       = Some (Json (JArray []))"
  using importData_each_key[of
      "Json (JObject [(''sessions'', JArray [JString ''s'']), (''badges'', JArray [])])"
      "\<lparr>SESSIONS = None, BADGES = Some Unparsable, LAST_SESSION_DATE = None\<rparr>"]
  by simp

text \<open>
  The import is not all-or-nothing: the input \<^verbatim>\<open>{"sessions": []}\<close> has no \<open>badges\<close>, yet
  it is accepted and the stored sessions are replaced.
\<close>

theorem importData_all_or_nothing_counterexample:
  "map_of [(''sessions'', JArray [])] ''badges'' = None
   \<and> fst (importData (Json (JObject [(''sessions'', JArray [])]))
            \<lparr>SESSIONS = Some (Json (JArray [session_json (session_on ''a'' ''2024-01-01'' 30)])),
             BADGES = None, LAST_SESSION_DATE = None\<rparr>) = True
   \<and> SESSIONS (snd (importData (Json (JObject [(''sessions'', JArray [])]))
            \<lparr>SESSIONS = Some (Json (JArray [session_json (session_on ''a'' ''2024-01-01'' 30)])),
             BADGES = None, LAST_SESSION_DATE = None\<rparr>)) = Some (Json (JArray []))
   \<and> Some (Json (JArray [])) \<noteq>
       SESSIONS \<lparr>SESSIONS = Some (Json (JArray [session_json (session_on ''a'' ''2024-01-01'' 30)])),
             BADGES = None, LAST_SESSION_DATE = None\<rparr>"
  by (simp add: importData_def saveSessions_def)

section \<open>Properties of the badge evaluation\<close>

lemma badgeMap_fold:
  "foldl (\<lambda>m b. m(id_b b \<mapsto> b)) m xs = m ++ map_of (rev (map (\<lambda>b. (id_b b, b)) xs))"
  by (induction xs arbitrary: m) (simp_all add: map_add_upd_left fun_eq_iff map_add_def split: option.split)

lemma badgeMap_of_eq: "badgeMap_of xs = map_of (rev (map (\<lambda>b. (id_b b, b)) xs))"
  by (simp add: badgeMap_of_def badgeMap_fold)

lemma badgeMap_of_SomeD: "badgeMap_of xs k = Some e \<Longrightarrow> e \<in> set xs \<and> id_b e = k"
  by (auto simp: badgeMap_of_eq dest!: map_of_SomeD)

lemma badgeMap_of_distinct:
  assumes "distinct (map id_b xs)" "b \<in> set xs"
  shows "badgeMap_of xs (id_b b) = Some b"
proof -
  have "distinct (map fst (rev (map (\<lambda>b. (id_b b, b)) xs)))"
    using assms(1) by (simp add: rev_map[symmetric] comp_def)
  then show ?thesis using assms(2) by (simp add: badgeMap_of_eq)
qed

lemma foldl_update_other:
  "\<forall>b' \<in> set xs. id_b b' \<noteq> k \<Longrightarrow> foldl (\<lambda>m b. m(id_b b \<mapsto> b)) m xs k = m k"
  by (induction xs arbitrary: m) auto

lemma badgeMap_of_last:
  "\<forall>b' \<in> set later. id_b b' \<noteq> id_b b \<Longrightarrow> badgeMap_of (earlier @ b # later) (id_b b) = Some b"
  by (simp add: badgeMap_of_def foldl_update_other)

lemma distinct_BADGE_DEFINITIONS: "distinct (map id_b BADGE_DEFINITIONS)"
  by (simp add: BADGE_DEFINITIONS_def)

lemma length_BADGE_DEFINITIONS: "length BADGE_DEFINITIONS = 12"
  by (simp add: BADGE_DEFINITIONS_def)

lemma badges_memo_nth:
  "k < length BADGE_DEFINITIONS \<Longrightarrow>
   fst (badges_memo stats now existingBadges newBadges) ! k
     = fst (evaluate_badge stats now (badgeMap_of existingBadges) (BADGE_DEFINITIONS ! k))"
  by (simp add: badges_memo_def Let_def)

lemma length_badges_memo:
  "length (fst (badges_memo stats now existingBadges newBadges)) = length BADGE_DEFINITIONS"
  by (simp add: badges_memo_def Let_def)

lemma evaluate_badge_id: "id_b (fst (evaluate_badge stats now (badgeMap_of xs) d)) = id_b d"
  by (auto simp: evaluate_badge_def Let_def spread_badge_def split: option.split
      dest: badgeMap_of_SomeD)

lemma evaluate_badge_unlocked_existing:
  "m (id_b d) = Some e \<Longrightarrow> unlocked e \<Longrightarrow> evaluate_badge stats now m d = (e, None)"
  by (simp add: evaluate_badge_def Let_def)

lemma map_id_badges_memo:
  "map id_b (fst (badges_memo stats now existingBadges newBadges)) = map id_b BADGE_DEFINITIONS"
  by (simp add: badges_memo_def Let_def comp_def evaluate_badge_id)

text \<open>
  Claim C3 (badge monotonicity), as amended. The evaluation finds the stored badge of a
  catalog entry by its id, and of several stored badges with one id it finds the last.
  For every previous state and all statistics: when the last stored badge with the id of a
  catalog entry is unlocked, it comes out of the evaluation as it went in, still unlocked
  and with the \<open>unlockedAt\<close> it had. So in a previous state whose ids are distinct, every
  unlocked badge of the catalog comes out as it went in. And a badge that one evaluation
  leaves unlocked is returned unchanged by every later evaluation of the state that
  evaluation saved, so its \<open>unlockedAt\<close> is written once.
\<close>

theorem badge_monotonicity:
  "(k < length BADGE_DEFINITIONS \<and> existingBadges = earlier @ b # later
      \<and> (\<forall>b' \<in> set later. id_b b' \<noteq> id_b b)
      \<and> id_b (BADGE_DEFINITIONS ! k) = id_b b \<and> unlocked b
    \<longrightarrow> fst (badges_memo stats now existingBadges newBadges) ! k = b)
   \<and> (distinct (map id_b existingBadges) \<and> b \<in> set existingBadges \<and> unlocked b
      \<and> k < length BADGE_DEFINITIONS \<and> id_b (BADGE_DEFINITIONS ! k) = id_b b
    \<longrightarrow> fst (badges_memo stats now existingBadges newBadges) ! k = b)
   \<and> (k < length BADGE_DEFINITIONS
        \<and> unlocked (fst (badges_memo stats now existingBadges newBadges) ! k)
    \<longrightarrow> fst (badges_memo stats' now'
               (fst (badges_memo stats now existingBadges newBadges)) newBadges') ! k
          = fst (badges_memo stats now existingBadges newBadges) ! k)"
proof (intro conjI impI)
  assume a: "k < length BADGE_DEFINITIONS \<and> existingBadges = earlier @ b # later
      \<and> (\<forall>b' \<in> set later. id_b b' \<noteq> id_b b)
      \<and> id_b (BADGE_DEFINITIONS ! k) = id_b b \<and> unlocked b"
  then have "badgeMap_of existingBadges (id_b (BADGE_DEFINITIONS ! k)) = Some b"
    by (simp add: badgeMap_of_last)
  with a show "fst (badges_memo stats now existingBadges newBadges) ! k = b"
    by (simp add: badges_memo_nth evaluate_badge_unlocked_existing)
next
  assume a: "distinct (map id_b existingBadges) \<and> b \<in> set existingBadges \<and> unlocked b
      \<and> k < length BADGE_DEFINITIONS \<and> id_b (BADGE_DEFINITIONS ! k) = id_b b"
  then have "badgeMap_of existingBadges (id_b (BADGE_DEFINITIONS ! k)) = Some b"
    by (simp add: badgeMap_of_distinct)
  with a show "fst (badges_memo stats now existingBadges newBadges) ! k = b"
    by (simp add: badges_memo_nth evaluate_badge_unlocked_existing)
next
  let ?prev = "fst (badges_memo stats now existingBadges newBadges)"
  assume a: "k < length BADGE_DEFINITIONS \<and> unlocked (?prev ! k)"
  have "distinct (map id_b ?prev)"
    by (simp add: map_id_badges_memo distinct_BADGE_DEFINITIONS)
  moreover have "?prev ! k \<in> set ?prev" using a by (simp add: length_badges_memo)
  ultimately have "badgeMap_of ?prev (id_b (?prev ! k)) = Some (?prev ! k)"
    by (rule badgeMap_of_distinct)
  moreover have "id_b (?prev ! k) = id_b (BADGE_DEFINITIONS ! k)"
    using a by (simp add: badges_memo_nth evaluate_badge_id)
  ultimately have "badgeMap_of ?prev (id_b (BADGE_DEFINITIONS ! k)) = Some (?prev ! k)"
    by simp
  then have "evaluate_badge stats' now' (badgeMap_of ?prev) (BADGE_DEFINITIONS ! k)
      = (?prev ! k, None)"
    using a by (intro evaluate_badge_unlocked_existing) simp_all
  then show "fst (badges_memo stats' now' ?prev newBadges') ! k = ?prev ! k"
    using a badges_memo_nth[of k stats' now' ?prev newBadges'] by simp
qed

text \<open>
  The 3-day streak badge stored twice, locked and then unlocked at time 5, evaluated at
  time 99 with a current streak of 0: the later record is the one found, and it is kept.
\<close>

theorem badge_monotonicity_witness:
  "currentStreak zero_stats < requirement (BADGE_DEFINITIONS ! 0)
   \<and> fst (badges_memo zero_stats 99
           [spread_badge (BADGE_DEFINITIONS ! 0) False None,
            spread_badge (BADGE_DEFINITIONS ! 0) True (Some 5)] []) ! 0
       = spread_badge (BADGE_DEFINITIONS ! 0) True (Some 5)
   \<and> unlockedAt (fst (badges_memo zero_stats 99
           [spread_badge (BADGE_DEFINITIONS ! 0) False None,
            spread_badge (BADGE_DEFINITIONS ! 0) True (Some 5)] []) ! 0) = Some 5"
proof -
  have "fst (badges_memo zero_stats 99
           [spread_badge (BADGE_DEFINITIONS ! 0) False None,
            spread_badge (BADGE_DEFINITIONS ! 0) True (Some 5)] []) ! 0
       = spread_badge (BADGE_DEFINITIONS ! 0) True (Some 5)"
    using badge_monotonicity[of 0
        "[spread_badge (BADGE_DEFINITIONS ! 0) False None,
          spread_badge (BADGE_DEFINITIONS ! 0) True (Some 5)]"
        "[spread_badge (BADGE_DEFINITIONS ! 0) False None]"
        "spread_badge (BADGE_DEFINITIONS ! 0) True (Some 5)" "[]" zero_stats 99 "[]"]
    by (simp add: spread_badge_def length_BADGE_DEFINITIONS)
  then show ?thesis
    by (simp add: zero_stats_def BADGE_DEFINITIONS_def spread_badge_def)
qed

text \<open>
  The claim as it was made, for every previous state, fails on a state that holds two
  badges with one id. The 3-day streak badge stored twice, unlocked at time 5 and then
  locked, evaluated with a current streak of 0: the evaluation finds the later, locked
  record, and the badge that was unlocked comes out locked, without its \<open>unlockedAt\<close>.
\<close>

theorem badge_monotonicity_counterexample:
  "unlocked (spread_badge (BADGE_DEFINITIONS ! 0) True (Some 5))
   \<and> id_b (spread_badge (BADGE_DEFINITIONS ! 0) True (Some 5)) = id_b (BADGE_DEFINITIONS ! 0)
   \<and> fst (badges_memo zero_stats 99
           [spread_badge (BADGE_DEFINITIONS ! 0) True (Some 5),
            spread_badge (BADGE_DEFINITIONS ! 0) False None] []) ! 0
       = spread_badge (BADGE_DEFINITIONS ! 0) False None
   \<and> \<not> unlocked (fst (badges_memo zero_stats 99
           [spread_badge (BADGE_DEFINITIONS ! 0) True (Some 5),
            spread_badge (BADGE_DEFINITIONS ! 0) False None] []) ! 0)
   \<and> unlockedAt (fst (badges_memo zero_stats 99
           [spread_badge (BADGE_DEFINITIONS ! 0) True (Some 5),
            spread_badge (BADGE_DEFINITIONS ! 0) False None] []) ! 0) = None"
  by code_simp

lemma foldl_update_superset: "set prev \<subseteq> set (foldl setNewBadges_update prev xs)"
proof (induction xs arbitrary: prev)
  case Nil
  show ?case by simp
next
  case (Cons x xs)
  have "set prev \<subseteq> set (setNewBadges_update prev x)"
    by (auto simp: setNewBadges_update_def)
  with Cons[of "setNewBadges_update prev x"] show ?case by auto
qed

lemma update_has_id: "\<exists>n \<in> set (setNewBadges_update prev x). id_b n = id_b x"
  by (auto simp: setNewBadges_update_def find_None_iff)

lemma foldl_update_has_id:
  "x \<in> set xs \<Longrightarrow> \<exists>n \<in> set (foldl setNewBadges_update prev xs). id_b n = id_b x"
proof (induction xs arbitrary: prev)
  case Nil
  then show ?case by simp
next
  case (Cons y ys)
  show ?case
  proof (cases "x = y")
    case True
    from update_has_id[of prev y] obtain n where "n \<in> set (setNewBadges_update prev y)"
      "id_b n = id_b y" by blast
    with foldl_update_superset[of "setNewBadges_update prev y" ys] True show ?thesis by auto
  next
    case False
    with Cons show ?thesis by simp
  qed
qed

lemma foldl_update_fresh:
  "x \<in> set xs \<Longrightarrow> distinct (map id_b xs) \<Longrightarrow> \<forall>p \<in> set prev. id_b p \<noteq> id_b x
     \<Longrightarrow> x \<in> set (foldl setNewBadges_update prev xs)"
proof (induction xs arbitrary: prev)
  case Nil
  then show ?case by simp
next
  case (Cons y ys)
  show ?case
  proof (cases "x = y")
    case True
    with Cons.prems have "x \<in> set (setNewBadges_update prev y)"
      by (auto simp: setNewBadges_update_def find_None_iff)
    with foldl_update_superset[of "setNewBadges_update prev y" ys] show ?thesis by auto
  next
    case False
    with Cons.prems have x: "x \<in> set ys" "distinct (map id_b ys)" "id_b y \<noteq> id_b x" by auto
    with Cons.prems have "\<forall>p \<in> set (setNewBadges_update prev y). id_b p \<noteq> id_b x"
      by (auto simp: setNewBadges_update_def)
    from Cons.IH[OF x(1,2) this] show ?thesis by simp
  qed
qed

lemma evaluate_badge_new_id: "snd (evaluate_badge stats now m d) = Some n \<Longrightarrow> id_b n = id_b d"
  by (auto simp: evaluate_badge_def Let_def spread_badge_def split: if_splits option.splits)

lemma new_badges_ids:
  "map id_b (List.map_filter snd (map (evaluate_badge stats now m) ds))
     = map id_b (filter (\<lambda>d. snd (evaluate_badge stats now m d) \<noteq> None) ds)"
  by (induction ds) (auto simp: List.map_filter_simps dest: evaluate_badge_new_id split: option.split)

lemma distinct_new_badges:
  "distinct (map id_b (List.map_filter snd (map (evaluate_badge stats now m) BADGE_DEFINITIONS)))"
  unfolding new_badges_ids by (rule distinct_map_filter) (rule distinct_BADGE_DEFINITIONS)

lemma evaluate_badge_locked_before:
  assumes "case m (id_b d) of None \<Rightarrow> True | Some e \<Rightarrow> \<not> unlocked e"
  shows "unlocked (fst (evaluate_badge stats now m d)) = isUnlocked_now stats d"
    and "isUnlocked_now stats d \<Longrightarrow>
           evaluate_badge stats now m d
             = (spread_badge d True (Some now), Some (spread_badge d True (Some now)))"
  using assms by (auto simp: evaluate_badge_def Let_def spread_badge_def split: option.splits)

text \<open>
  Claim C7 (eligibility mapping). For a catalog entry with no unlocked badge of its id in
  the previous state, the evaluated badge is unlocked exactly when the statistic of its
  type reaches the requirement: the current streak for \<open>streak\<close>, the minutes of this
  week for \<open>time\<close>, the number of sessions for \<open>content\<close>. When it is, \<open>unlockedAt\<close> is
  \<open>now\<close> and a badge of its id stands in \<open>newBadges\<close> afterwards: the new badge itself,
  unless one of its id was already waiting there.
\<close>

theorem badge_eligibility:
  assumes "k < length BADGE_DEFINITIONS"
    and "\<forall>b \<in> set existingBadges. id_b b = id_b (BADGE_DEFINITIONS ! k) \<longrightarrow> \<not> unlocked b"
  shows "(type_b (BADGE_DEFINITIONS ! k) = streak \<longrightarrow>
            unlocked (fst (badges_memo stats now existingBadges newBadges) ! k)
              = (currentStreak stats \<ge> requirement (BADGE_DEFINITIONS ! k)))
       \<and> (type_b (BADGE_DEFINITIONS ! k) = time \<longrightarrow>
            unlocked (fst (badges_memo stats now existingBadges newBadges) ! k)
              = (minutesThisWeek stats \<ge> requirement (BADGE_DEFINITIONS ! k)))
       \<and> (type_b (BADGE_DEFINITIONS ! k) = content_type \<longrightarrow>
            unlocked (fst (badges_memo stats now existingBadges newBadges) ! k)
              = (totalSessions stats \<ge> requirement (BADGE_DEFINITIONS ! k)))
       \<and> (unlocked (fst (badges_memo stats now existingBadges newBadges) ! k) \<longrightarrow>
            unlockedAt (fst (badges_memo stats now existingBadges newBadges) ! k) = Some now
            \<and> (\<exists>n \<in> set (snd (badges_memo stats now existingBadges newBadges)).
                  id_b n = id_b (BADGE_DEFINITIONS ! k))
            \<and> ((\<forall>p \<in> set newBadges. id_b p \<noteq> id_b (BADGE_DEFINITIONS ! k)) \<longrightarrow>
                  fst (badges_memo stats now existingBadges newBadges) ! k
                    \<in> set (snd (badges_memo stats now existingBadges newBadges))))"
proof -
  let ?d = "BADGE_DEFINITIONS ! k"
  let ?m = "badgeMap_of existingBadges"
  let ?r = "fst (badges_memo stats now existingBadges newBadges) ! k"
  let ?new = "List.map_filter snd (map (evaluate_badge stats now ?m) BADGE_DEFINITIONS)"
  have locked: "case ?m (id_b ?d) of None \<Rightarrow> True | Some e \<Rightarrow> \<not> unlocked e"
    using assms(2) by (auto split: option.split dest: badgeMap_of_SomeD)
  have r: "?r = fst (evaluate_badge stats now ?m ?d)"
    using assms(1) by (rule badges_memo_nth)
  have u: "unlocked ?r = isUnlocked_now stats ?d"
    unfolding r by (rule evaluate_badge_locked_before(1)[where m = "?m" and d = "?d", OF locked])
  have snd_memo: "snd (badges_memo stats now existingBadges newBadges)
      = foldl setNewBadges_update newBadges ?new"
    by (simp add: badges_memo_def Let_def)
  have reported: "unlockedAt ?r = Some now
      \<and> (\<exists>n \<in> set (snd (badges_memo stats now existingBadges newBadges)). id_b n = id_b ?d)
      \<and> ((\<forall>p \<in> set newBadges. id_b p \<noteq> id_b ?d) \<longrightarrow>
            ?r \<in> set (snd (badges_memo stats now existingBadges newBadges)))"
    if "unlocked ?r"
  proof -
    from that u have e: "evaluate_badge stats now ?m ?d
        = (spread_badge ?d True (Some now), Some (spread_badge ?d True (Some now)))"
      using evaluate_badge_locked_before(2)[where m = "?m" and d = "?d", OF locked] by simp
    then have r': "?r = spread_badge ?d True (Some now)" using r by simp
    have "?d \<in> set BADGE_DEFINITIONS" using assms(1) by simp
    with e have mem: "?r \<in> set ?new"
      unfolding r' by (force simp: List.map_filter_def)
    have idr: "id_b ?r = id_b ?d" by (simp add: r' spread_badge_def)
    from foldl_update_has_id[OF mem, of newBadges] idr
    have "\<exists>n \<in> set (snd (badges_memo stats now existingBadges newBadges)). id_b n = id_b ?d"
      by (simp add: snd_memo)
    moreover have "?r \<in> set (snd (badges_memo stats now existingBadges newBadges))"
      if "\<forall>p \<in> set newBadges. id_b p \<noteq> id_b ?d"
      unfolding snd_memo using that idr
      by (intro foldl_update_fresh[OF mem distinct_new_badges]) simp
    moreover have "unlockedAt ?r = Some now" by (simp add: r' spread_badge_def)
    ultimately show ?thesis by blast
  qed
  from u reported show ?thesis by (auto simp: isUnlocked_now_def)
qed

text \<open>
  Ten sessions and no stored badges: the 10-session badge is unlocked at \<open>now\<close> and
  reported, the 50-session badge stays locked.
\<close>

theorem badge_eligibility_witness:
  "unlocked (fst (badges_memo (zero_stats\<lparr>totalSessions := 10\<rparr>) 99 [] []) ! 8)
   \<and> unlockedAt (fst (badges_memo (zero_stats\<lparr>totalSessions := 10\<rparr>) 99 [] []) ! 8) = Some 99
   \<and> fst (badges_memo (zero_stats\<lparr>totalSessions := 10\<rparr>) 99 [] []) ! 8
       \<in> set (snd (badges_memo (zero_stats\<lparr>totalSessions := 10\<rparr>) 99 [] []))
   \<and> \<not> unlocked (fst (badges_memo (zero_stats\<lparr>totalSessions := 10\<rparr>) 99 [] []) ! 9)"
proof -
  have t8: "type_b (BADGE_DEFINITIONS ! 8) = content_type" "requirement (BADGE_DEFINITIONS ! 8) = 10"
    and t9: "type_b (BADGE_DEFINITIONS ! 9) = content_type" "requirement (BADGE_DEFINITIONS ! 9) = 50"
    by (simp_all add: BADGE_DEFINITIONS_def)
  from badge_eligibility[of 8 "[]" "zero_stats\<lparr>totalSessions := 10\<rparr>" 99 "[]"]
    badge_eligibility[of 9 "[]" "zero_stats\<lparr>totalSessions := 10\<rparr>" 99 "[]"]
  show ?thesis
    by (simp add: t8 t9 length_BADGE_DEFINITIONS zero_stats_def)
qed

end
